theory Spec2Isabelle
  imports Complex_Main "HOL-Library.Word"
begin

unbundle bit_operations_syntax

section \<open>The delta fixture generator of oligocast (testing/deltatest2.py)\<close>

text \<open>
  The script keeps its own copy of a multicast source list, changes it by random
  absolute, additive and subtractive deltas, and prints two streams: the commands
  (stdout) and what the tool under test is expected to answer (stderr).

  Python integers are \<open>int\<close>; lengths and counters are \<open>nat\<close>. Floating point
  numbers are rationals: a value of \<open>random()\<close> is \<open>k / 2^53\<close> exactly, and a floating
  point literal that is compared with such a value stands for the double it denotes.
  The doubles of \<open>0.2\<close> and \<open>0.4\<close> compare with every \<open>k / 2^53\<close> as \<open>2 / 10\<close> and
  \<open>4 / 10\<close> do (lemmas \<open>threshold_02_exact\<close> and \<open>threshold_04_exact\<close> below), so these
  are written as the fractions; the double of \<open>0.6\<close> is \<open>5404319552844595 / 2^53\<close>,
  which is below \<open>6 / 10\<close> and compares differently with the draw
  \<open>5404319552844595 / 2^53\<close>, so it is written out. The product in
  \<open>uniform(0, modden)\<close> is taken exactly. Exceptions are values of \<open>error\<close>.
\<close>

subsection \<open>Errors\<close>

datatype error =
    Exception string  \<comment> \<open>\<open>raise Exception(...)\<close> at startup\<close>
  | ValueError        \<comment> \<open>\<open>rnd.randrange\<close> on an empty range\<close>
  | IndexError        \<comment> \<open>\<open>rnd.choice\<close> on an empty sequence\<close>

subsection \<open>The pseudorandom generator\<close>

text \<open>
  Python's \<open>random\<close> module is a library, not code of this repository. It is modelled
  as a tape of raw draws together with the read position. Every call reads one cell:
  \<open>random()\<close> is a 53 bit integer divided by \<open>2^53\<close>, \<open>uniform(a, b)\<close> is
  \<open>a + (b - a) * random()\<close>, \<open>randrange(0, n)\<close> is a number below \<open>n\<close> and raises
  ValueError when \<open>n = 0\<close>, \<open>choice(seq)\<close> is the element at a random index and raises
  IndexError on an empty sequence. The tape is arbitrary, so whatever the library
  returns is covered by some tape.
\<close>

record rng =
  tape :: "nat \<Rightarrow> nat"
  pos :: nat

definition rnd_random :: "rng \<Rightarrow> rat \<times> rng" where
  "rnd_random g = (of_nat (tape g (pos g) mod 2 ^ 53) / 2 ^ 53, g\<lparr>pos := Suc (pos g)\<rparr>)"

definition rnd_uniform :: "rat \<Rightarrow> rat \<Rightarrow> rng \<Rightarrow> rat \<times> rng" where
  "rnd_uniform lo hi g = (case rnd_random g of (r, g1) \<Rightarrow> (lo + (hi - lo) * r, g1))"

definition rnd_randrange :: "nat \<Rightarrow> rng \<Rightarrow> error + nat \<times> rng" where
  "rnd_randrange n g =
     (if n = 0 then Inl ValueError
      else Inr (tape g (pos g) mod n, g\<lparr>pos := Suc (pos g)\<rparr>))"

definition rnd_choice :: "'a list \<Rightarrow> rng \<Rightarrow> error + 'a \<times> rng" where
  "rnd_choice xs g =
     (if xs = [] then Inl IndexError
      else Inr (xs ! (tape g (pos g) mod length xs), g\<lparr>pos := Suc (pos g)\<rparr>))"

subsection \<open>Addresses\<close>

type_synonym addr = int

text \<open>
  \<^verbatim>\<open>
  def mkbits(l, d):
      b = 0
      for i in range(l):
          if rnd.uniform(0, 1) < d:
              b += 1 << i
      return (b)
  \<close>
\<close>

fun mkbits_loop :: "nat list \<Rightarrow> rat \<Rightarrow> int \<Rightarrow> rng \<Rightarrow> int \<times> rng" where
  "mkbits_loop [] d b g = (b, g)"
| "mkbits_loop (i # is) d b g =
     (case rnd_uniform 0 1 g of
        (u, g1) \<Rightarrow> mkbits_loop is d (if u < d then b + push_bit i 1 else b) g1)"

definition mkbits :: "nat \<Rightarrow> rat \<Rightarrow> rng \<Rightarrow> int \<times> rng" where
  "mkbits l d g = mkbits_loop [0..<l] d 0 g"

text \<open>
  \<^verbatim>\<open>
  def mkaddr(b, d):
      if ipver == 4:
          if b is None: b = 0x0a000000
          return(b ^ mkbits(24, d))
      else:
          if b is None: b = 0xfd05aaaa000000000000000000000000
          return(b ^ mkbits(96, d))
  \<close>
\<close>

definition mkaddr :: "int \<Rightarrow> addr option \<Rightarrow> rat \<Rightarrow> rng \<Rightarrow> addr \<times> rng" where
  "mkaddr ipver b d g =
     (if ipver = 4 then
        (case mkbits 24 d g of
           (m, g1) \<Rightarrow> ((case b of None \<Rightarrow> 0x0a000000 | Some x \<Rightarrow> x) XOR m, g1))
      else
        (case mkbits 96 d g of
           (m, g1) \<Rightarrow>
             ((case b of None \<Rightarrow> 0xfd05aaaa000000000000000000000000 | Some x \<Rightarrow> x) XOR m, g1)))"

text \<open>The modification density bound of lines 109 to 112.\<close>

definition modden :: "int \<Rightarrow> rat" where
  "modden ipver = (if ipver = 4 then 2 / 10 else 5 / 100)"

text \<open>
  The statement \<open>a = mkaddr(a, rnd.uniform(0, modden))\<close>, which occurs in each of the
  three branches. The argument is evaluated first, then \<open>mkaddr\<close> runs.
\<close>

definition density_arg :: "int \<Rightarrow> rng \<Rightarrow> rat \<times> rng" where
  "density_arg ipver g = rnd_uniform 0 (modden ipver) g"

definition synth :: "int \<Rightarrow> addr option \<Rightarrow> rng \<Rightarrow> addr \<times> rng" where
  "synth ipver a g = (case density_arg ipver g of (d, g1) \<Rightarrow> mkaddr ipver a d g1)"

subsection \<open>The length test of the three building loops\<close>

text \<open>
  \<open>len(delta) < lencrit() or len(delta) < lencrit()\<close> with
  \<open>lencrit = lambda: rnd.randrange(0, n)\<close>. Python's \<open>or\<close> does not evaluate its
  second operand when the first is true, so one or two cells of the tape are read.
\<close>

definition lencond :: "nat \<Rightarrow> nat \<Rightarrow> rng \<Rightarrow> error + bool \<times> rng" where
  "lencond n len g =
     (case rnd_randrange n g of
        Inl e \<Rightarrow> Inl e
      | Inr (r1, g1) \<Rightarrow>
          if len < r1 then Inr (True, g1)
          else (case rnd_randrange n g1 of
                  Inl e \<Rightarrow> Inl e
                | Inr (r2, g2) \<Rightarrow> Inr (len < r2, g2)))"

lemma lencond_True: "lencond n len g = Inr (True, g1) \<Longrightarrow> len < n"
  by (auto simp: lencond_def rnd_randrange_def split: if_splits intro: less_trans)

subsection \<open>Output lines\<close>

text \<open>
  A printed line is kept in structured form; \<open>cmdout\<close> and \<open>oracleout\<close> below give
  its text, following the string expressions of the \<open>print\<close> calls.
\<close>

datatype cmd =
    SetE string "addr list"  \<comment> \<open>\<open>"-E" + deltype + addrsout(delta)\<close>\<close>
  | QueryE                   \<comment> \<open>\<open>"?E"\<close>\<close>
  | ExitX                    \<comment> \<open>\<open>".x"\<close>\<close>

datatype oline =
    Received cmd             \<comment> \<open>\<open>"received command for x " + command\<close>\<close>
  | Note "addr list"         \<comment> \<open>\<open>"note: x source setting: -E" + addrsout(sources)\<close>\<close>

subsection \<open>The state of the script\<close>

text \<open>
  The module level variables \<open>sources\<close>, \<open>a\<close> and \<open>o\<close>, the generator, and what has
  been printed so far on the two streams.
\<close>

record state =
  sources :: "addr list"
  a_var :: "addr option"
  o_var :: nat
  rnd :: rng
  stdout :: "cmd list"
  stderr :: "oline list"

subsection \<open>Absolute set (lines 122 to 133)\<close>

definition abs_cand :: "int \<Rightarrow> addr list \<Rightarrow> addr option \<Rightarrow> rng \<Rightarrow> error + addr \<times> rng" where
  "abs_cand ipver delta a g =
     (if length delta \<noteq> 0 then
        (case rnd_uniform 0 1 g of
           (u, g1) \<Rightarrow> if u < 4 / 10 then rnd_choice delta g1 else Inr (synth ipver a g1))
      else Inr (synth ipver a g))"

function abs_loop ::
  "int \<Rightarrow> nat \<Rightarrow> addr list \<Rightarrow> addr option \<Rightarrow> rng \<Rightarrow> error + addr list \<times> addr option \<times> rng"
where
  "abs_loop ipver addrmax delta a g =
     (case lencond addrmax (length delta) g of
        Inl e \<Rightarrow> Inl e
      | Inr (c, g1) \<Rightarrow>
          if c then
            (case abs_cand ipver delta a g1 of
               Inl e \<Rightarrow> Inl e
             | Inr (a1, g2) \<Rightarrow> abs_loop ipver addrmax (delta @ [a1]) (Some a1) g2)
          else Inr (delta, a, g1))"
  by pat_completeness auto
termination
  by (relation "measure (\<lambda>(ipver, addrmax, delta, a, g). addrmax - length delta)")
     (auto dest: lencond_True)

text \<open>Lines 185 to 193: print the step and count it.\<close>

definition emit :: "string \<Rightarrow> addr list \<Rightarrow> state \<Rightarrow> state" where
  "emit deltype delta s =
     s\<lparr>stdout := stdout s @ [SetE deltype delta, QueryE],
       stderr := stderr s @ [Received (SetE deltype delta), Received QueryE, Note (sources s)],
       o_var := o_var s + 1\<rparr>"

definition absolute :: "int \<Rightarrow> nat \<Rightarrow> state \<Rightarrow> error + state" where
  "absolute ipver addrmax s =
     (case abs_loop ipver addrmax [] (a_var s) (rnd s) of
        Inl e \<Rightarrow> Inl e
      | Inr (delta, a, g) \<Rightarrow>
          Inr (emit '''' delta (s\<lparr>sources := sort delta, a_var := a, rnd := g\<rparr>)))"

subsection \<open>Subtractive delta (lines 135 to 158)\<close>

text \<open>
  Line 142 is \<open>if len(sources) and rnd.uniform(0, 1) < 0.6\<close>. The literal \<open>0.6\<close> is the
  double \<open>5404319552844595 / 2^53\<close>.
\<close>

definition sub_cand :: "int \<Rightarrow> addr list \<Rightarrow> addr option \<Rightarrow> rng \<Rightarrow> error + addr \<times> rng" where
  "sub_cand ipver srcs a g =
     (if length srcs \<noteq> 0 then
        (case rnd_uniform 0 1 g of
           (u, g1) \<Rightarrow> if u < 5404319552844595 / 2 ^ 53 then rnd_choice srcs g1 else Inr (synth ipver a g1))
      else Inr (synth ipver a g))"

function sub_loop ::
  "int \<Rightarrow> addr list \<Rightarrow> addr list \<Rightarrow> addr option \<Rightarrow> rng \<Rightarrow> error + addr list \<times> addr option \<times> rng"
where
  "sub_loop ipver srcs delta a g =
     (case lencond (length srcs + drop_bit 2 (length srcs) + 1) (length delta) g of
        Inl e \<Rightarrow> Inl e
      | Inr (c, g1) \<Rightarrow>
          if c then
            (case sub_cand ipver srcs a g1 of
               Inl e \<Rightarrow> Inl e
             | Inr (a1, g2) \<Rightarrow> sub_loop ipver srcs (delta @ [a1]) (Some a1) g2)
          else Inr (delta, a, g1))"
  by pat_completeness auto
termination
  by (relation "measure (\<lambda>(ipver, srcs, delta, a, g).
        length srcs + drop_bit 2 (length srcs) + 1 - length delta)")
     (auto dest: lencond_True)

text \<open>
  A rejected attempt (\<open>continue\<close>) keeps what the loop did to \<open>a\<close> and to the
  generator and nothing else.
\<close>

definition subtractive :: "int \<Rightarrow> state \<Rightarrow> error + state" where
  "subtractive ipver s =
     (case sub_loop ipver (sources s) [] (a_var s) (rnd s) of
        Inl e \<Rightarrow> Inl e
      | Inr (delta, a, g) \<Rightarrow>
          if length delta = 0 then Inr (s\<lparr>a_var := a, rnd := g\<rparr>)
          else
            (let dx = fold insert delta {};
                 sources2 = filter (\<lambda>x. x \<notin> dx) (sources s)
             in Inr (emit ''-'' delta (s\<lparr>sources := sources2, a_var := a, rnd := g\<rparr>))))"

subsection \<open>Additive delta (lines 160 to 183)\<close>

definition add_cand :: "int \<Rightarrow> addr list \<Rightarrow> addr option \<Rightarrow> rng \<Rightarrow> error + addr \<times> rng" where
  "add_cand ipver srcs a g =
     (if length srcs \<noteq> 0 then
        (case rnd_uniform 0 1 g of
           (u, g1) \<Rightarrow> if u < 4 / 10 then rnd_choice srcs g1 else Inr (synth ipver a g1))
      else Inr (synth ipver a g))"

function add_loop ::
  "int \<Rightarrow> nat \<Rightarrow> addr list \<Rightarrow> addr list \<Rightarrow> addr option \<Rightarrow> rng
    \<Rightarrow> error + addr list \<times> addr option \<times> rng"
where
  "add_loop ipver addrmax srcs delta a g =
     (case lencond addrmax (length delta) g of
        Inl e \<Rightarrow> Inl e
      | Inr (c, g1) \<Rightarrow>
          if c then
            (case add_cand ipver srcs a g1 of
               Inl e \<Rightarrow> Inl e
             | Inr (a1, g2) \<Rightarrow> add_loop ipver addrmax srcs (delta @ [a1]) (Some a1) g2)
          else Inr (delta, a, g1))"
  by pat_completeness auto
termination
  by (relation "measure (\<lambda>(ipver, addrmax, srcs, delta, a, g). addrmax - length delta)")
     (auto dest: lencond_True)

definition additive :: "int \<Rightarrow> nat \<Rightarrow> state \<Rightarrow> error + state" where
  "additive ipver addrmax s =
     (case add_loop ipver addrmax (sources s) [] (a_var s) (rnd s) of
        Inl e \<Rightarrow> Inl e
      | Inr (delta, a, g) \<Rightarrow>
          (let a_s = fold insert delta (fold insert (sources s) {})
           in if card a_s \<ge> addrmax then Inr (s\<lparr>a_var := a, rnd := g\<rparr>)
              else if length delta = 0 then Inr (s\<lparr>a_var := a, rnd := g\<rparr>)
              else Inr (emit ''+'' delta
                          (s\<lparr>sources := sorted_list_of_set a_s, a_var := a, rnd := g\<rparr>))))"

subsection \<open>The main loop (lines 114 to 201)\<close>

text \<open>One pass through the body of \<open>while o < numops\<close>.\<close>

definition attempt :: "int \<Rightarrow> nat \<Rightarrow> state \<Rightarrow> error + state" where
  "attempt ipver addrmax s =
     (if o_var s = 0 then absolute ipver addrmax s
      else
        (case rnd_uniform 0 1 (rnd s) of
           (u, g1) \<Rightarrow>
             if u < 2 / 10 then absolute ipver addrmax (s\<lparr>rnd := g1\<rparr>)
             else
               (case rnd_choice [False, True] g1 of
                  Inl e \<Rightarrow> Inl e
                | Inr (c, g2) \<Rightarrow>
                    if c then subtractive ipver (s\<lparr>rnd := g2\<rparr>)
                    else additive ipver addrmax (s\<lparr>rnd := g2\<rparr>))))"

text \<open>
  Rejected attempts are retried without bound, so the loop need not end. The first
  argument bounds the number of passes; \<open>None\<close> says that the bound was too small.
\<close>

fun mainloop :: "nat \<Rightarrow> int \<Rightarrow> nat \<Rightarrow> nat \<Rightarrow> state \<Rightarrow> (error + state) option" where
  "mainloop fuel ipver addrmax numops s =
     (if o_var s < numops then
        (case fuel of
           0 \<Rightarrow> None
         | Suc fuel' \<Rightarrow>
             (case attempt ipver addrmax s of
                Inl e \<Rightarrow> Some (Inl e)
              | Inr s' \<Rightarrow> mainloop fuel' ipver addrmax numops s'))
      else Some (Inr s))"

definition finish :: "state \<Rightarrow> state" where
  "finish s = s\<lparr>stdout := stdout s @ [ExitX], stderr := stderr s @ [Received ExitX]\<rparr>"

definition init :: "(nat \<Rightarrow> nat) \<Rightarrow> state" where
  "init t = \<lparr>sources = [], a_var = None, o_var = 0, rnd = \<lparr>tape = t, pos = 0\<rparr>,
             stdout = [], stderr = []\<rparr>"

text \<open>
  The whole script, after \<open>int(argv[i])\<close>. The library's generator is the parameter
  \<open>mt\<close>: \<open>rnd.seed(seed)\<close> fixes the tape \<open>mt seed\<close>.
\<close>

definition main ::
  "(int \<Rightarrow> nat \<Rightarrow> nat) \<Rightarrow> int \<Rightarrow> int \<Rightarrow> int \<Rightarrow> int \<Rightarrow> nat \<Rightarrow> (error + state) option"
where
  "main mt seed ipver addrmax numops fuel =
     (if ipver \<noteq> 4 \<and> ipver \<noteq> 6 then Some (Inl (Exception ''ipver must be 4 or 6''))
      else if addrmax < 1 then Some (Inl (Exception ''addrmax must be positive''))
      else if numops < 1 then Some (Inl (Exception ''numops must be positive''))
      else
        (case mainloop fuel ipver (nat addrmax) (nat numops) (init (mt seed)) of
           None \<Rightarrow> None
         | Some (Inl e) \<Rightarrow> Some (Inl e)
         | Some (Inr s) \<Rightarrow> Some (Inr (finish s))))"

subsection \<open>The text of the lines (lines 64 to 81 and 186 to 198)\<close>

text \<open>
  \<open>inet_ntop\<close> is the library's; it is a parameter here, taking the address family and
  the bytes.
\<close>

datatype af = AF_INET | AF_INET6

definition addrout :: "(af \<Rightarrow> nat list \<Rightarrow> string) \<Rightarrow> int \<Rightarrow> addr \<Rightarrow> string" where
  "addrout inet_ntop ipver a =
     (if ipver = 4 then
        inet_ntop AF_INET (map (\<lambda>i. nat (drop_bit i a AND 255)) [24, 16, 8, 0])
      else
        inet_ntop AF_INET6
          (map (\<lambda>i. nat (drop_bit i a AND 255))
             [120, 112, 104, 96, 88, 80, 72, 64, 56, 48, 40, 32, 24, 16, 8, 0]))"

fun join :: "string \<Rightarrow> string list \<Rightarrow> string" where
  "join sep [] = []"
| "join sep [x] = x"
| "join sep (x # y # ys) = x @ sep @ join sep (y # ys)"

definition addrsout :: "(af \<Rightarrow> nat list \<Rightarrow> string) \<Rightarrow> int \<Rightarrow> addr list \<Rightarrow> string" where
  "addrsout inet_ntop ipver a_s =
     (if length a_s \<noteq> 0 then join '','' (map (addrout inet_ntop ipver) a_s) else ''-'')"

fun cmdout :: "(af \<Rightarrow> nat list \<Rightarrow> string) \<Rightarrow> int \<Rightarrow> cmd \<Rightarrow> string" where
  "cmdout inet_ntop ipver (SetE deltype delta) = ''-E'' @ deltype @ addrsout inet_ntop ipver delta"
| "cmdout inet_ntop ipver QueryE = ''?E''"
| "cmdout inet_ntop ipver ExitX = ''.x''"

fun oracleout :: "(af \<Rightarrow> nat list \<Rightarrow> string) \<Rightarrow> int \<Rightarrow> oline \<Rightarrow> string" where
  "oracleout inet_ntop ipver (Received c) = ''received command for x '' @ cmdout inet_ntop ipver c"
| "oracleout inet_ntop ipver (Note srcs) =
     ''note: x source setting: -E'' @ addrsout inet_ntop ipver srcs"

declare abs_loop.simps [simp del] sub_loop.simps [simp del] add_loop.simps [simp del]
declare mainloop.simps [simp del]

subsection \<open>Reading the two streams\<close>

text \<open>The base network: 10.0.0.0/8 for version 4, fd05:aaaa::/32 otherwise.\<close>

definition in_net :: "int \<Rightarrow> addr \<Rightarrow> bool" where
  "in_net ipver x =
     (if ipver = 4 then drop_bit 24 x = drop_bit 24 (0x0a000000 :: int)
      else drop_bit 96 x = drop_bit 96 (0xfd05aaaa000000000000000000000000 :: int))"

fun cmd_addrs :: "cmd \<Rightarrow> addr list" where
  "cmd_addrs (SetE deltype delta) = delta"
| "cmd_addrs QueryE = []"
| "cmd_addrs ExitX = []"

fun oline_addrs :: "oline \<Rightarrow> addr list" where
  "oline_addrs (Received c) = cmd_addrs c"
| "oline_addrs (Note srcs) = srcs"

text \<open>Every address a state holds or has printed.\<close>

definition state_addrs :: "state \<Rightarrow> addr set" where
  "state_addrs s =
     set (sources s) \<union> set_option (a_var s) \<union> set (concat (map cmd_addrs (stdout s)))
       \<union> set (concat (map oline_addrs (stderr s)))"

text \<open>The delta commands of the primary stream and the source settings of the oracle.\<close>

fun primary_deltas :: "cmd list \<Rightarrow> (string \<times> addr list) list" where
  "primary_deltas [] = []"
| "primary_deltas (SetE deltype delta # cs) = (deltype, delta) # primary_deltas cs"
| "primary_deltas (c # cs) = primary_deltas cs"

fun oracle_notes :: "oline list \<Rightarrow> addr list list" where
  "oracle_notes [] = []"
| "oracle_notes (Note srcs # ls) = srcs # oracle_notes ls"
| "oracle_notes (l # ls) = oracle_notes ls"

text \<open>
  The documented meaning of the three kinds of command, in the specification's words:
  an absolute set replaces the source set with the deduplicated sorted delta, an
  additive delta gives the deduplicated sorted union, a subtractive delta the set
  difference. \<open>replay\<close> gives the source set after each command.
\<close>

definition apply_delta :: "string \<Rightarrow> addr list \<Rightarrow> addr list \<Rightarrow> addr list" where
  "apply_delta deltype srcs delta =
     (if deltype = '''' then sort (remdups delta)
      else if deltype = ''+'' then sort (remdups (srcs @ delta))
      else filter (\<lambda>x. x \<notin> set delta) srcs)"

fun replay :: "addr list \<Rightarrow> (string \<times> addr list) list \<Rightarrow> addr list list" where
  "replay srcs [] = []"
| "replay srcs ((deltype, delta) # ds) =
     apply_delta deltype srcs delta # replay (apply_delta deltype srcs delta) ds"

text \<open>
  The text of one accepted step on each stream as the specification describes it, to
  be compared with what \<open>cmdout\<close> and \<open>oracleout\<close> give for the lines the script
  prints; a step is the kind marker, the delta and the source list after it.
\<close>

definition step_primary ::
  "(af \<Rightarrow> nat list \<Rightarrow> string) \<Rightarrow> int \<Rightarrow> string \<times> addr list \<times> addr list \<Rightarrow> string list"
where
  "step_primary inet_ntop ipver st =
     (case st of (deltype, delta, srcs) \<Rightarrow>
        [''-E'' @ deltype @ (if delta = [] then ''-''
                             else join '','' (map (addrout inet_ntop ipver) delta)),
         ''?E''])"

definition step_oracle ::
  "(af \<Rightarrow> nat list \<Rightarrow> string) \<Rightarrow> int \<Rightarrow> string \<times> addr list \<times> addr list \<Rightarrow> string list"
where
  "step_oracle inet_ntop ipver st =
     (case st of (deltype, delta, srcs) \<Rightarrow>
        [''received command for x -E'' @ deltype @
           (if delta = [] then ''-'' else join '','' (map (addrout inet_ntop ipver) delta)),
         ''received command for x ?E'',
         ''note: x source setting: -E'' @
           (if srcs = [] then ''-'' else join '','' (map (addrout inet_ntop ipver) srcs))])"

text \<open>
  A model of the library's \<open>inet_ntop\<close> for version 4, dotted decimal, to run the
  text functions on examples. Version 6 addresses are not rendered by it.
\<close>

fun digits :: "nat \<Rightarrow> nat \<Rightarrow> string" where
  "digits 0 n = []"
| "digits (Suc k) n =
     (if n < 10 then [''0123456789'' ! n]
      else digits k (n div 10) @ [''0123456789'' ! (n mod 10)])"

definition dotted :: "af \<Rightarrow> nat list \<Rightarrow> string" where
  "dotted family bs = join ''.'' (map (digits 3) bs)"


text \<open>A generator for examples: every raw draw is 2, whatever the seed.\<close>

definition tape2 :: "int \<Rightarrow> nat \<Rightarrow> nat" where
  "tape2 seed i = 2"

text \<open>The generator at a position of that tape, and the state after its first step.\<close>

definition gen2 :: "nat \<Rightarrow> rng" where
  "gen2 p = \<lparr>tape = tape2 0, pos = p\<rparr>"

definition s2_step :: state where
  "s2_step =
     \<lparr>sources = [167772160, 167772160], a_var = Some 167772160, o_var = 1, rnd = gen2 31,
      stdout = [SetE '''' [167772160, 167772160], QueryE],
      stderr = [Received (SetE '''' [167772160, 167772160]), Received QueryE,
                Note [167772160, 167772160]]\<rparr>"

definition steps_inv :: "nat \<Rightarrow> state \<Rightarrow> bool" where
  "steps_inv numops s \<longleftrightarrow>
     o_var s \<le> numops \<and>
     (\<exists>steps. length steps = o_var s
        \<and> (\<forall>st\<in>set steps. fst st = '''' \<or> (fst st = ''+'' \<or> fst st = ''-'') \<and> fst (snd st) \<noteq> [])
        \<and> stdout s = concat (map (\<lambda>(deltype, delta, srcs). [SetE deltype delta, QueryE]) steps)
        \<and> stderr s = concat (map (\<lambda>(deltype, delta, srcs).
              [Received (SetE deltype delta), Received QueryE, Note srcs]) steps))"

text \<open>The source set that a replay ends with.\<close>

fun replay_end :: "addr list \<Rightarrow> (string \<times> addr list) list \<Rightarrow> addr list" where
  "replay_end srcs [] = srcs"
| "replay_end srcs ((deltype, delta) # ds) = replay_end (apply_delta deltype srcs delta) ds"

definition replay_inv :: "state \<Rightarrow> bool" where
  "replay_inv s \<longleftrightarrow>
     sorted (sources s)
     \<and> replay_end [] (primary_deltas (stdout s)) = remdups (sources s)
     \<and> replay [] (primary_deltas (stdout s)) = map remdups (oracle_notes (stderr s))"

text \<open>
  A second generator for examples: every raw draw is \<open>2^53 - 1\<close>, so every uniform
  draw is just below 1. And a state on it whose last synthesized address, 10.0.0.0, is
  not in its source list, which holds 10.0.0.5.
\<close>

definition tape_hi :: "int \<Rightarrow> nat \<Rightarrow> nat" where
  "tape_hi seed i = 2 ^ 53 - 1"

definition gen_hi :: "nat \<Rightarrow> rng" where
  "gen_hi p = \<lparr>tape = tape_hi 0, pos = p\<rparr>"




section \<open>Properties\<close>

subsection \<open>The generator and the addresses\<close>

lemma mkbits_loop_bound:
  "0 \<le> b \<Longrightarrow> b < 2 ^ k \<Longrightarrow> k \<le> l \<Longrightarrow>
     0 \<le> fst (mkbits_loop [k..<l] d b g) \<and> fst (mkbits_loop [k..<l] d b g) < 2 ^ l"
proof (induction "l - k" arbitrary: k b g)
  case 0
  then show ?case by simp
next
  case (Suc n)
  then have kl: "k < l" by simp
  obtain u g1 where u: "rnd_uniform 0 1 g = (u, g1)" by (cases "rnd_uniform 0 1 g")
  let ?b = "if u < d then b + push_bit k 1 else b"
  have b0: "0 \<le> ?b" using Suc.prems by simp
  have "b + 2 ^ k < (2::int) ^ Suc k" using Suc.prems by simp
  moreover have "b < (2::int) ^ Suc k" using Suc.prems by simp
  ultimately have b1: "?b < 2 ^ Suc k" by (simp add: push_bit_eq_mult)
  have "n = l - Suc k" using Suc.hyps by simp
  from Suc.hyps(1)[OF this b0 b1] kl
  have "0 \<le> fst (mkbits_loop [Suc k..<l] d ?b g1) \<and> fst (mkbits_loop [Suc k..<l] d ?b g1) < 2 ^ l"
    by simp
  then show ?case using kl u by (simp add: upt_conv_Cons)
qed

lemma mkbits_bound: "0 \<le> fst (mkbits l d g) \<and> fst (mkbits l d g) < 2 ^ l"
  unfolding mkbits_def using mkbits_loop_bound[of 0 0 l d g] by simp

lemma drop_bit_xor_small:
  fixes x m :: int
  assumes "0 \<le> m" "m < 2 ^ l"
  shows "drop_bit l (x XOR m) = drop_bit l x"
proof -
  have "drop_bit l m = 0" using assms by (simp add: drop_bit_eq_div)
  then show ?thesis by (simp add: drop_bit_xor)
qed

lemma mkaddr_4:
  "mkaddr 4 b d g =
     ((case b of None \<Rightarrow> 0x0a000000 | Some x \<Rightarrow> x) XOR fst (mkbits 24 d g), snd (mkbits 24 d g))"
  by (simp add: mkaddr_def split: prod.splits)

lemma mkaddr_6:
  "ipver \<noteq> 4 \<Longrightarrow> mkaddr ipver b d g =
     ((case b of None \<Rightarrow> 0xfd05aaaa000000000000000000000000 | Some x \<Rightarrow> x)
        XOR fst (mkbits 96 d g), snd (mkbits 96 d g))"
  by (simp add: mkaddr_def split: prod.splits)

lemma mkaddr_prefix4:
  "drop_bit 24 (fst (mkaddr 4 b d g)) = drop_bit 24 (case b of None \<Rightarrow> 0x0a000000 | Some x \<Rightarrow> x)"
  unfolding mkaddr_4 fst_conv
  using mkbits_bound[of 24 d g] by (intro drop_bit_xor_small) simp_all

lemma mkaddr_prefix6:
  "ipver \<noteq> 4 \<Longrightarrow> drop_bit 96 (fst (mkaddr ipver b d g)) =
     drop_bit 96 (case b of None \<Rightarrow> 0xfd05aaaa000000000000000000000000 | Some x \<Rightarrow> x)"
  unfolding mkaddr_6 fst_conv
  using mkbits_bound[of 96 d g] by (intro drop_bit_xor_small) simp_all

lemma mkaddr_in_net:
  assumes "\<And>x. b = Some x \<Longrightarrow> in_net ipver x"
  shows "in_net ipver (fst (mkaddr ipver b d g))"
proof (cases "ipver = 4")
  case True
  then show ?thesis using mkaddr_prefix4[of b d g] assms
    by (cases b) (simp_all add: in_net_def)
next
  case False
  then show ?thesis using mkaddr_prefix6[of ipver b d g] assms
    by (cases b) (simp_all add: in_net_def)
qed

lemma synth_in_net:
  assumes "\<And>x. a = Some x \<Longrightarrow> in_net ipver x" and "synth ipver a g = (y, g')"
  shows "in_net ipver y"
proof -
  obtain d g1 where dg: "density_arg ipver g = (d, g1)" by (cases "density_arg ipver g")
  with assms(2) have "y = fst (mkaddr ipver a d g1)" by (simp add: synth_def)
  then show ?thesis using mkaddr_in_net[of a ipver d g1] assms(1) by simp
qed

lemma rnd_choice_mem: "rnd_choice xs g = Inr (y, g') \<Longrightarrow> y \<in> set xs"
  by (auto simp: rnd_choice_def split: if_splits)

lemma rnd_choice_ok: "xs \<noteq> [] \<Longrightarrow> \<exists>r. rnd_choice xs g = Inr r"
  by (simp add: rnd_choice_def)

lemma lencond_ok: "0 < n \<Longrightarrow> \<exists>r. lencond n len g = Inr r"
  by (auto simp: lencond_def rnd_randrange_def)

lemma lencond_pos: "lencond n len g = Inr r \<Longrightarrow> 0 < n"
  by (auto simp: lencond_def rnd_randrange_def split: if_splits)

lemma lencond_not_IndexError: "lencond n len g \<noteq> Inl IndexError"
  by (auto simp: lencond_def rnd_randrange_def)

subsection \<open>The candidates\<close>

lemma abs_cand_ok: "\<exists>r. abs_cand ipver delta a g = Inr r"
  by (auto simp: abs_cand_def rnd_choice_def split: prod.splits)

lemma sub_cand_ok: "\<exists>r. sub_cand ipver srcs a g = Inr r"
  by (auto simp: sub_cand_def rnd_choice_def split: prod.splits)

lemma add_cand_ok: "\<exists>r. add_cand ipver srcs a g = Inr r"
  by (auto simp: add_cand_def rnd_choice_def split: prod.splits)

lemma abs_cand_in_net:
  assumes "abs_cand ipver delta a g = Inr (y, g')" "\<forall>x\<in>set delta. in_net ipver x"
    "\<And>x. a = Some x \<Longrightarrow> in_net ipver x"
  shows "in_net ipver y"
  using assms(1,2) synth_in_net[OF assms(3)]
  by (auto simp: abs_cand_def split: if_splits prod.splits dest: rnd_choice_mem)

lemma sub_cand_in_net:
  assumes "sub_cand ipver srcs a g = Inr (y, g')" "\<forall>x\<in>set srcs. in_net ipver x"
    "\<And>x. a = Some x \<Longrightarrow> in_net ipver x"
  shows "in_net ipver y"
  using assms(1,2) synth_in_net[OF assms(3)]
  by (auto simp: sub_cand_def split: if_splits prod.splits dest: rnd_choice_mem)

lemma add_cand_in_net:
  assumes "add_cand ipver srcs a g = Inr (y, g')" "\<forall>x\<in>set srcs. in_net ipver x"
    "\<And>x. a = Some x \<Longrightarrow> in_net ipver x"
  shows "in_net ipver y"
  using assms(1,2) synth_in_net[OF assms(3)]
  by (auto simp: add_cand_def split: if_splits prod.splits dest: rnd_choice_mem)


subsection \<open>The building loops\<close>

text \<open>Induction along a loop that returns: it stops at once, or makes one more pass.\<close>

lemma abs_loop_induct_Inr [consumes 1, case_names stop step]:
  assumes run: "abs_loop ipver addrmax delta a g = Inr r"
    and stop: "\<And>delta a g g1. lencond addrmax (length delta) g = Inr (False, g1)
                 \<Longrightarrow> P delta a g (delta, a, g1)"
    and step: "\<And>delta a g g1 a1 g2 r.
                 lencond addrmax (length delta) g = Inr (True, g1) \<Longrightarrow>
                 abs_cand ipver delta a g1 = Inr (a1, g2) \<Longrightarrow>
                 abs_loop ipver addrmax (delta @ [a1]) (Some a1) g2 = Inr r \<Longrightarrow>
                 P (delta @ [a1]) (Some a1) g2 r \<Longrightarrow> P delta a g r"
  shows "P delta a g r"
proof -
  have "abs_loop i m delta a g = Inr r \<Longrightarrow> i = ipver \<Longrightarrow> m = addrmax \<Longrightarrow> P delta a g r" for i m
  proof (induction i m delta a g rule: abs_loop.induct)
    case (1 i m delta a g)
    note [simp] = \<open>i = ipver\<close> \<open>m = addrmax\<close>
    from "1.prems"(1) obtain c g1 where lc: "lencond m (length delta) g = Inr (c, g1)"
      by (subst (asm) abs_loop.simps) (auto split: sum.splits)
    show ?case
    proof (cases c)
      case False
      with lc have lc': "lencond addrmax (length delta) g = Inr (False, g1)" by simp
      with "1.prems"(1) have r: "r = (delta, a, g1)"
        by (subst (asm) abs_loop.simps) simp
      show ?thesis unfolding r by (rule stop[OF lc'])
    next
      case True
      with "1.prems"(1) lc obtain a1 g2 where
        ac: "abs_cand i delta a g1 = Inr (a1, g2)" and
        rec: "abs_loop i m (delta @ [a1]) (Some a1) g2 = Inr r"
        by (subst (asm) abs_loop.simps) (auto split: sum.splits)
      from True lc have lc': "lencond addrmax (length delta) g = Inr (True, g1)" by simp
      from "1.IH"[OF lc refl True ac refl rec "1.prems"(2,3)]
      have "P (delta @ [a1]) (Some a1) g2 r" .
      then show ?thesis using ac rec by (intro step[OF lc']) simp_all
    qed
  qed
  with run show ?thesis by simp
qed

lemma sub_loop_induct_Inr [consumes 1, case_names stop step]:
  assumes run: "sub_loop ipver srcs delta a g = Inr r"
    and stop: "\<And>delta a g g1.
                 lencond (length srcs + drop_bit 2 (length srcs) + 1) (length delta) g
                   = Inr (False, g1)
                 \<Longrightarrow> P delta a g (delta, a, g1)"
    and step: "\<And>delta a g g1 a1 g2 r.
                 lencond (length srcs + drop_bit 2 (length srcs) + 1) (length delta) g
                   = Inr (True, g1) \<Longrightarrow>
                 sub_cand ipver srcs a g1 = Inr (a1, g2) \<Longrightarrow>
                 sub_loop ipver srcs (delta @ [a1]) (Some a1) g2 = Inr r \<Longrightarrow>
                 P (delta @ [a1]) (Some a1) g2 r \<Longrightarrow> P delta a g r"
  shows "P delta a g r"
proof -
  have "sub_loop i ss delta a g = Inr r \<Longrightarrow> i = ipver \<Longrightarrow> ss = srcs \<Longrightarrow> P delta a g r" for i ss
  proof (induction i ss delta a g rule: sub_loop.induct)
    case (1 i ss delta a g)
    note [simp] = \<open>i = ipver\<close> \<open>ss = srcs\<close>
    let ?n = "length ss + drop_bit 2 (length ss) + 1"
    from "1.prems"(1) obtain c g1 where lc: "lencond ?n (length delta) g = Inr (c, g1)"
      by (subst (asm) sub_loop.simps) (auto split: sum.splits)
    show ?case
    proof (cases c)
      case False
      with lc have lc': "lencond (length srcs + drop_bit 2 (length srcs) + 1) (length delta) g
          = Inr (False, g1)" by simp
      with "1.prems"(1) have r: "r = (delta, a, g1)"
        by (subst (asm) sub_loop.simps) simp
      show ?thesis unfolding r by (rule stop[OF lc'])
    next
      case True
      with "1.prems"(1) lc obtain a1 g2 where
        ac: "sub_cand i ss a g1 = Inr (a1, g2)" and
        rec: "sub_loop i ss (delta @ [a1]) (Some a1) g2 = Inr r"
        by (subst (asm) sub_loop.simps) (auto split: sum.splits)
      from True lc have lc': "lencond (length srcs + drop_bit 2 (length srcs) + 1) (length delta) g
          = Inr (True, g1)" by simp
      from "1.IH"[OF lc refl True ac refl rec "1.prems"(2,3)]
      have "P (delta @ [a1]) (Some a1) g2 r" .
      then show ?thesis using ac rec by (intro step[OF lc']) simp_all
    qed
  qed
  with run show ?thesis by simp
qed

lemma add_loop_induct_Inr [consumes 1, case_names stop step]:
  assumes run: "add_loop ipver addrmax srcs delta a g = Inr r"
    and stop: "\<And>delta a g g1. lencond addrmax (length delta) g = Inr (False, g1)
                 \<Longrightarrow> P delta a g (delta, a, g1)"
    and step: "\<And>delta a g g1 a1 g2 r.
                 lencond addrmax (length delta) g = Inr (True, g1) \<Longrightarrow>
                 add_cand ipver srcs a g1 = Inr (a1, g2) \<Longrightarrow>
                 add_loop ipver addrmax srcs (delta @ [a1]) (Some a1) g2 = Inr r \<Longrightarrow>
                 P (delta @ [a1]) (Some a1) g2 r \<Longrightarrow> P delta a g r"
  shows "P delta a g r"
proof -
  have "add_loop i m ss delta a g = Inr r \<Longrightarrow> i = ipver \<Longrightarrow> m = addrmax \<Longrightarrow> ss = srcs
          \<Longrightarrow> P delta a g r" for i m ss
  proof (induction i m ss delta a g rule: add_loop.induct)
    case (1 i m ss delta a g)
    note [simp] = \<open>i = ipver\<close> \<open>m = addrmax\<close> \<open>ss = srcs\<close>
    from "1.prems"(1) obtain c g1 where lc: "lencond m (length delta) g = Inr (c, g1)"
      by (subst (asm) add_loop.simps) (auto split: sum.splits)
    show ?case
    proof (cases c)
      case False
      with lc have lc': "lencond addrmax (length delta) g = Inr (False, g1)" by simp
      with "1.prems"(1) have r: "r = (delta, a, g1)"
        by (subst (asm) add_loop.simps) simp
      show ?thesis unfolding r by (rule stop[OF lc'])
    next
      case True
      with "1.prems"(1) lc obtain a1 g2 where
        ac: "add_cand i ss a g1 = Inr (a1, g2)" and
        rec: "add_loop i m ss (delta @ [a1]) (Some a1) g2 = Inr r"
        by (subst (asm) add_loop.simps) (auto split: sum.splits)
      from True lc have lc': "lencond addrmax (length delta) g = Inr (True, g1)" by simp
      from "1.IH"[OF lc refl True ac refl rec "1.prems"(2,3,4)]
      have "P (delta @ [a1]) (Some a1) g2 r" .
      then show ?thesis using ac rec by (intro step[OF lc']) simp_all
    qed
  qed
  with run show ?thesis by simp
qed

text \<open>The length of what a loop returns.\<close>

lemma lencond_True_Suc: "lencond n len g = Inr (True, g1) \<Longrightarrow> Suc len < n"
proof -
  assume a: "lencond n len g = Inr (True, g1)"
  then have n: "0 < n" by (rule lencond_pos)
  have m: "t mod n < n" for t using n by simp
  have "Suc len < n" if "len < t mod n" for t
    using that m[of t] by linarith
  with a n show ?thesis
    by (auto simp: lencond_def rnd_randrange_def split: if_splits)
qed

lemma abs_loop_len:
  assumes "abs_loop ipver addrmax delta a g = Inr r"
  shows "0 < addrmax \<and> (length delta < addrmax \<longrightarrow> length (fst r) < addrmax)"
  using assms
proof (induction rule: abs_loop_induct_Inr)
  case (stop delta a g g1)
  then show ?case by (auto dest: lencond_pos)
next
  case (step delta a g g1 a1 g2 r)
  then show ?case by (auto dest: lencond_True_Suc)
qed

lemma add_loop_len:
  assumes "add_loop ipver addrmax srcs delta a g = Inr r"
  shows "0 < addrmax \<and> (length delta < addrmax \<longrightarrow> length (fst r) < addrmax)"
  using assms
proof (induction rule: add_loop_induct_Inr)
  case (stop delta a g g1)
  then show ?case by (auto dest: lencond_pos)
next
  case (step delta a g g1 a1 g2 r)
  then show ?case by (auto dest: lencond_True_Suc)
qed


text \<open>The loops only append.\<close>

lemma abs_loop_prefix:
  assumes "abs_loop ipver addrmax delta a g = Inr r"
  shows "\<exists>ys. fst r = delta @ ys"
  using assms by (induction rule: abs_loop_induct_Inr) auto

text \<open>The addresses a loop returns are in the base network.\<close>

lemma abs_loop_in_net:
  assumes "abs_loop ipver addrmax delta a g = Inr r"
  shows "(\<forall>x\<in>set delta. in_net ipver x) \<and> (\<forall>x. a = Some x \<longrightarrow> in_net ipver x) \<longrightarrow>
         (\<forall>x\<in>set (fst r). in_net ipver x) \<and> (\<forall>x. fst (snd r) = Some x \<longrightarrow> in_net ipver x)"
  using assms(1)
proof (induction rule: abs_loop_induct_Inr)
  case (stop delta a g g1)
  show ?case by simp
next
  case (step delta a g g1 a1 g2 r)
  show ?case
  proof (intro impI)
    assume pre: "(\<forall>x\<in>set delta. in_net ipver x) \<and> (\<forall>x. a = Some x \<longrightarrow> in_net ipver x)"
    then have d: "\<forall>x\<in>set delta. in_net ipver x" and a: "\<And>x. a = Some x \<Longrightarrow> in_net ipver x"
      by simp_all
    have "in_net ipver a1"
      by (rule abs_cand_in_net[OF step.hyps(2) d a])
    with d have "(\<forall>x\<in>set (delta @ [a1]). in_net ipver x) \<and>
        (\<forall>x. Some a1 = Some x \<longrightarrow> in_net ipver x)" by simp
    with step.IH show "(\<forall>x\<in>set (fst r). in_net ipver x) \<and>
        (\<forall>x. fst (snd r) = Some x \<longrightarrow> in_net ipver x)" by blast
  qed
qed

lemma sub_loop_in_net:
  assumes "sub_loop ipver srcs delta a g = Inr r" "\<forall>x\<in>set srcs. in_net ipver x"
  shows "(\<forall>x\<in>set delta. in_net ipver x) \<and> (\<forall>x. a = Some x \<longrightarrow> in_net ipver x) \<longrightarrow>
         (\<forall>x\<in>set (fst r). in_net ipver x) \<and> (\<forall>x. fst (snd r) = Some x \<longrightarrow> in_net ipver x)"
  using assms(1)
proof (induction rule: sub_loop_induct_Inr)
  case (stop delta a g g1)
  show ?case by simp
next
  case (step delta a g g1 a1 g2 r)
  show ?case
  proof (intro impI)
    assume pre: "(\<forall>x\<in>set delta. in_net ipver x) \<and> (\<forall>x. a = Some x \<longrightarrow> in_net ipver x)"
    then have d: "\<forall>x\<in>set delta. in_net ipver x" and a: "\<And>x. a = Some x \<Longrightarrow> in_net ipver x"
      by simp_all
    have "in_net ipver a1"
      by (rule sub_cand_in_net[OF step.hyps(2) assms(2) a])
    with d have "(\<forall>x\<in>set (delta @ [a1]). in_net ipver x) \<and>
        (\<forall>x. Some a1 = Some x \<longrightarrow> in_net ipver x)" by simp
    with step.IH show "(\<forall>x\<in>set (fst r). in_net ipver x) \<and>
        (\<forall>x. fst (snd r) = Some x \<longrightarrow> in_net ipver x)" by blast
  qed
qed

lemma add_loop_in_net:
  assumes "add_loop ipver addrmax srcs delta a g = Inr r" "\<forall>x\<in>set srcs. in_net ipver x"
  shows "(\<forall>x\<in>set delta. in_net ipver x) \<and> (\<forall>x. a = Some x \<longrightarrow> in_net ipver x) \<longrightarrow>
         (\<forall>x\<in>set (fst r). in_net ipver x) \<and> (\<forall>x. fst (snd r) = Some x \<longrightarrow> in_net ipver x)"
  using assms(1)
proof (induction rule: add_loop_induct_Inr)
  case (stop delta a g g1)
  show ?case by simp
next
  case (step delta a g g1 a1 g2 r)
  show ?case
  proof (intro impI)
    assume pre: "(\<forall>x\<in>set delta. in_net ipver x) \<and> (\<forall>x. a = Some x \<longrightarrow> in_net ipver x)"
    then have d: "\<forall>x\<in>set delta. in_net ipver x" and a: "\<And>x. a = Some x \<Longrightarrow> in_net ipver x"
      by simp_all
    have "in_net ipver a1"
      by (rule add_cand_in_net[OF step.hyps(2) assms(2) a])
    with d have "(\<forall>x\<in>set (delta @ [a1]). in_net ipver x) \<and>
        (\<forall>x. Some a1 = Some x \<longrightarrow> in_net ipver x)" by simp
    with step.IH show "(\<forall>x\<in>set (fst r). in_net ipver x) \<and>
        (\<forall>x. fst (snd r) = Some x \<longrightarrow> in_net ipver x)" by blast
  qed
qed

text \<open>The loops raise nothing when the bound of the length draw is positive.\<close>

lemma abs_loop_ok: "0 < addrmax \<Longrightarrow> \<exists>r. abs_loop ipver addrmax delta a g = Inr r"
proof (induction ipver addrmax delta a g rule: abs_loop.induct)
  case (1 ipver addrmax delta a g)
  from lencond_ok[OF "1.prems"] obtain c g1 where
    lc: "lencond (addrmax) (length delta) g = Inr (c, g1)"
    by (metis surj_pair)
  from abs_cand_ok obtain a1 g2 where ac: "abs_cand ipver delta a g1 = Inr (a1, g2)"
    by (metis surj_pair)
  show ?case
  proof (cases c)
    case True
    from "1.IH"[OF lc refl True ac refl "1.prems"] obtain r where
      "abs_loop ipver addrmax (delta @ [a1]) (Some a1) g2 = Inr r" ..
    then have "abs_loop ipver addrmax delta a g = Inr r"
      using lc True ac by (subst abs_loop.simps) simp
    then show ?thesis ..
  next
    case False
    then have "abs_loop ipver addrmax delta a g = Inr (delta, a, g1)"
      using lc by (subst abs_loop.simps) simp
    then show ?thesis ..
  qed
qed

lemma add_loop_ok: "0 < addrmax \<Longrightarrow> \<exists>r. add_loop ipver addrmax srcs delta a g = Inr r"
proof (induction ipver addrmax srcs delta a g rule: add_loop.induct)
  case (1 ipver addrmax srcs delta a g)
  from lencond_ok[OF "1.prems"] obtain c g1 where
    lc: "lencond (addrmax) (length delta) g = Inr (c, g1)"
    by (metis surj_pair)
  from add_cand_ok obtain a1 g2 where ac: "add_cand ipver srcs a g1 = Inr (a1, g2)"
    by (metis surj_pair)
  show ?case
  proof (cases c)
    case True
    from "1.IH"[OF lc refl True ac refl "1.prems"] obtain r where
      "add_loop ipver addrmax srcs (delta @ [a1]) (Some a1) g2 = Inr r" ..
    then have "add_loop ipver addrmax srcs delta a g = Inr r"
      using lc True ac by (subst add_loop.simps) simp
    then show ?thesis ..
  next
    case False
    then have "add_loop ipver addrmax srcs delta a g = Inr (delta, a, g1)"
      using lc by (subst add_loop.simps) simp
    then show ?thesis ..
  qed
qed

lemma sub_loop_ok: "\<exists>r. sub_loop ipver srcs delta a g = Inr r"
proof (induction ipver srcs delta a g rule: sub_loop.induct)
  case (1 ipver srcs delta a g)
  define n where "n = length srcs + drop_bit 2 (length srcs) + 1"
  have "0 < n" by (simp add: n_def)
  from lencond_ok[OF this] obtain c g1 where
    lc0: "lencond n (length delta) g = Inr (c, g1)"
    by (metis surj_pair)
  then have lc: "lencond (length srcs + drop_bit 2 (length srcs) + 1) (length delta) g = Inr (c, g1)"
    unfolding n_def .
  from sub_cand_ok obtain a1 g2 where ac: "sub_cand ipver srcs a g1 = Inr (a1, g2)"
    by (metis surj_pair)
  have unf: "sub_loop ipver srcs delta a g =
      (if c then sub_loop ipver srcs (delta @ [a1]) (Some a1) g2 else Inr (delta, a, g1))"
    by (subst sub_loop.simps) (simp only: lc ac sum.case prod.case)
  show ?case
  proof (cases c)
    case True
    from "1.IH"[OF lc refl True ac refl] obtain r where
      "sub_loop ipver srcs (delta @ [a1]) (Some a1) g2 = Inr r" ..
    then have "sub_loop ipver srcs delta a g = Inr r"
      using True unf by simp
    then show ?thesis ..
  next
    case False
    then have "sub_loop ipver srcs delta a g = Inr (delta, a, g1)"
      using unf by simp
    then show ?thesis ..
  qed
qed


subsection \<open>The three branches and the main loop\<close>

lemma fold_insert_set: "fold insert xs A = set xs \<union> A"
  by (induction xs arbitrary: A) auto

lemma oracle_notes_append: "oracle_notes (xs @ ys) = oracle_notes xs @ oracle_notes ys"
  by (induction xs rule: oracle_notes.induct) simp_all

lemma primary_deltas_append: "primary_deltas (xs @ ys) = primary_deltas xs @ primary_deltas ys"
  by (induction xs rule: primary_deltas.induct) simp_all

lemma absolute_Inr:
  assumes "absolute ipver addrmax s = Inr s'"
  obtains delta a g where
    "abs_loop ipver addrmax [] (a_var s) (rnd s) = Inr (delta, a, g)"
    "s' = emit '''' delta (s\<lparr>sources := sort delta, a_var := a, rnd := g\<rparr>)"
  using assms by (auto simp: absolute_def split: sum.splits)

lemma subtractive_Inr:
  assumes "subtractive ipver s = Inr s'"
  obtains (reject) a g where
    "sub_loop ipver (sources s) [] (a_var s) (rnd s) = Inr ([], a, g)"
    "s' = s\<lparr>a_var := a, rnd := g\<rparr>"
  | (accept) delta a g where
    "sub_loop ipver (sources s) [] (a_var s) (rnd s) = Inr (delta, a, g)"
    "delta \<noteq> []"
    "s' = emit ''-'' delta
            (s\<lparr>sources := filter (\<lambda>x. x \<notin> set delta) (sources s), a_var := a, rnd := g\<rparr>)"
  using assms
  by (auto simp: subtractive_def fold_insert_set Let_def split: sum.splits if_splits)

lemma additive_Inr:
  assumes "additive ipver addrmax s = Inr s'"
  obtains (reject) delta a g where
    "add_loop ipver addrmax (sources s) [] (a_var s) (rnd s) = Inr (delta, a, g)"
    "delta = [] \<or> addrmax \<le> card (set (sources s) \<union> set delta)"
    "s' = s\<lparr>a_var := a, rnd := g\<rparr>"
  | (accept) delta a g where
    "add_loop ipver addrmax (sources s) [] (a_var s) (rnd s) = Inr (delta, a, g)"
    "delta \<noteq> []" "card (set (sources s) \<union> set delta) < addrmax"
    "s' = emit ''+'' delta
            (s\<lparr>sources := sorted_list_of_set (set (sources s) \<union> set delta),
               a_var := a, rnd := g\<rparr>)"
proof -
  from assms obtain delta a g where
    l: "add_loop ipver addrmax (sources s) [] (a_var s) (rnd s) = Inr (delta, a, g)"
    by (auto simp: additive_def split: sum.splits)
  have u: "fold insert delta (fold insert (sources s) {}) = set (sources s) \<union> set delta"
    by (auto simp: fold_insert_set)
  show ?thesis
  proof (cases "delta = [] \<or> addrmax \<le> card (set (sources s) \<union> set delta)")
    case True
    with assms l u have "s' = s\<lparr>a_var := a, rnd := g\<rparr>"
      by (auto simp: additive_def Let_def split: if_splits)
    with l True show ?thesis by (rule reject)
  next
    case False
    with assms l u have "s' = emit ''+'' delta
            (s\<lparr>sources := sorted_list_of_set (set (sources s) \<union> set delta),
               a_var := a, rnd := g\<rparr>)"
      by (auto simp: additive_def Let_def split: if_splits)
    with l False show ?thesis by (intro accept[of delta a g]) auto
  qed
qed

lemma attempt_Inr:
  assumes "attempt ipver addrmax s = Inr s'"
  obtains (abs) g where "absolute ipver addrmax (s\<lparr>rnd := g\<rparr>) = Inr s'"
  | (sub) g where "0 < o_var s" "subtractive ipver (s\<lparr>rnd := g\<rparr>) = Inr s'"
  | (add) g where "0 < o_var s" "additive ipver addrmax (s\<lparr>rnd := g\<rparr>) = Inr s'"
proof (cases "o_var s = 0")
  case True
  with assms have "absolute ipver addrmax (s\<lparr>rnd := rnd s\<rparr>) = Inr s'"
    by (simp add: attempt_def)
  then show ?thesis by (rule abs)
next
  case False
  obtain u g1 where u: "rnd_uniform 0 1 (rnd s) = (u, g1)" by (cases "rnd_uniform 0 1 (rnd s)")
  show ?thesis
  proof (cases "u < 2 / 10")
    case True
    with assms False u have "absolute ipver addrmax (s\<lparr>rnd := g1\<rparr>) = Inr s'"
      by (simp add: attempt_def)
    then show ?thesis by (rule abs)
  next
    case nabs: False
    with assms \<open>o_var s \<noteq> 0\<close> u obtain c g2 where
      c: "rnd_choice [False, True] g1 = Inr (c, g2)"
      by (auto simp: attempt_def split: sum.splits)
    show ?thesis
    proof (cases c)
      case True
      with assms \<open>o_var s \<noteq> 0\<close> u nabs c have "subtractive ipver (s\<lparr>rnd := g2\<rparr>) = Inr s'"
        by (simp add: attempt_def)
      with \<open>o_var s \<noteq> 0\<close> show ?thesis by (intro sub[of g2]) simp_all
    next
      case False
      with assms \<open>o_var s \<noteq> 0\<close> u nabs c have "additive ipver addrmax (s\<lparr>rnd := g2\<rparr>) = Inr s'"
        by (simp add: attempt_def)
      with \<open>o_var s \<noteq> 0\<close> show ?thesis by (intro add[of g2]) simp_all
    qed
  qed
qed

text \<open>A property that every pass keeps holds when the loop ends.\<close>

lemma mainloop_invariant:
  assumes "mainloop fuel ipver addrmax numops s = Some (Inr s')" "I s"
    and step: "\<And>s s'. I s \<Longrightarrow> attempt ipver addrmax s = Inr s' \<Longrightarrow> I s'"
  shows "I s'"
  using assms(1,2)
proof (induction fuel arbitrary: s)
  case 0
  then show ?case by (subst (asm) mainloop.simps) (auto split: if_splits)
next
  case (Suc fuel)
  show ?case
  proof (cases "o_var s < numops")
    case False
    with Suc.prems show ?thesis by (subst (asm) mainloop.simps) simp
  next
    case True
    with Suc.prems(1) obtain s1 where a: "attempt ipver addrmax s = Inr s1"
      and m: "mainloop fuel ipver addrmax numops s1 = Some (Inr s')"
      by (subst (asm) mainloop.simps) (auto split: sum.splits)
    from step[OF Suc.prems(2) a] have "I s1" .
    with m show ?thesis by (rule Suc.IH)
  qed
qed

lemma mainloop_done:
  "mainloop fuel ipver addrmax numops s = Some (Inr s') \<Longrightarrow> \<not> o_var s' < numops"
proof (induction fuel arbitrary: s)
  case 0
  then show ?case by (subst (asm) mainloop.simps) (auto split: if_splits)
next
  case (Suc fuel)
  show ?case
  proof (cases "o_var s < numops")
    case False
    with Suc.prems show ?thesis by (subst (asm) mainloop.simps) simp
  next
    case True
    with Suc.prems(1) obtain s1 where
      m: "mainloop fuel ipver addrmax numops s1 = Some (Inr s')"
      by (subst (asm) mainloop.simps) (auto split: sum.splits)
    then show ?thesis by (rule Suc.IH)
  qed
qed

lemma main_Inr:
  assumes "main mt seed ipver addrmax numops fuel = Some (Inr s)"
  obtains s0 where "ipver = 4 \<or> ipver = 6" "1 \<le> addrmax" "1 \<le> numops"
    "mainloop fuel ipver (nat addrmax) (nat numops) (init (mt seed)) = Some (Inr s0)"
    "s = finish s0"
  using assms
  by (auto simp: main_def split: if_splits option.splits sum.splits)


text \<open>What one pass does to the source list, the counter and the two streams.\<close>

lemma attempt_outcome:
  assumes "attempt ipver addrmax s = Inr s'"
  obtains (reject) "sources s' = sources s" "o_var s' = o_var s" "stdout s' = stdout s"
      "stderr s' = stderr s" "0 < o_var s"
  | (accept) deltype delta where
      "o_var s' = Suc (o_var s)"
      "stdout s' = stdout s @ [SetE deltype delta, QueryE]"
      "stderr s' = stderr s @ [Received (SetE deltype delta), Received QueryE, Note (sources s')]"
      "(deltype = '''' \<and> sources s' = sort delta \<and> length delta < addrmax)
       \<or> (deltype = ''-'' \<and> delta \<noteq> [] \<and> 0 < o_var s
            \<and> sources s' = filter (\<lambda>x. x \<notin> set delta) (sources s))
       \<or> (deltype = ''+'' \<and> delta \<noteq> [] \<and> 0 < o_var s
            \<and> sources s' = sorted_list_of_set (set (sources s) \<union> set delta)
            \<and> card (set (sources s) \<union> set delta) < addrmax)"
  using assms
proof (cases rule: attempt_Inr)
  case (abs g)
  then show ?thesis
  proof (cases rule: absolute_Inr)
    case (1 delta a g')
    from abs_loop_len[OF 1(1)] have "length delta < addrmax" by simp
    with 1(2) show ?thesis by (intro accept[of "''''" delta]) (simp_all add: emit_def)
  qed
next
  case (sub g)
  from sub(2) show ?thesis
  proof (cases rule: subtractive_Inr)
    case (reject a g')
    with sub(1) show ?thesis by (intro that(1)) simp_all
  next
    case (accept delta a g')
    with sub(1) show ?thesis by (intro that(2)[of "''-''" delta]) (simp_all add: emit_def)
  qed
next
  case (add g)
  from add(2) show ?thesis
  proof (cases rule: additive_Inr)
    case (reject delta a g')
    with add(1) show ?thesis by (intro that(1)) simp_all
  next
    case (accept delta a g')
    with add(1) show ?thesis by (intro that(2)[of "''+''" delta]) (simp_all add: emit_def)
  qed
qed

lemma attempt_length:
  assumes "attempt ipver addrmax s = Inr s'" "length (sources s) < addrmax"
  shows "length (sources s') < addrmax"
  using assms(1)
proof (cases rule: attempt_outcome)
  case reject
  with assms(2) show ?thesis by simp
next
  case (accept deltype delta)
  from accept(4) show ?thesis
  proof (elim disjE conjE)
    assume "sources s' = sort delta" "length delta < addrmax"
    then show ?thesis by simp
  next
    assume "sources s' = filter (\<lambda>x. x \<notin> set delta) (sources s)"
    then have "length (sources s') \<le> length (sources s)" by simp
    with assms(2) show ?thesis by simp
  next
    assume "sources s' = sorted_list_of_set (set (sources s) \<union> set delta)"
      "card (set (sources s) \<union> set delta) < addrmax"
    then show ?thesis by simp
  qed
qed

lemma attempt_notes:
  assumes "attempt ipver addrmax s = Inr s'"
  shows "oracle_notes (stderr s') = oracle_notes (stderr s)
         \<or> oracle_notes (stderr s') = oracle_notes (stderr s) @ [sources s']"
  using assms
  by (cases rule: attempt_outcome) (simp_all add: oracle_notes_append)

lemma mainloop_length:
  assumes "mainloop fuel ipver addrmax numops s = Some (Inr s')"
    "length (sources s) < addrmax" "\<forall>srcs\<in>set (oracle_notes (stderr s)). length srcs < addrmax"
  shows "length (sources s') < addrmax \<and>
         (\<forall>srcs\<in>set (oracle_notes (stderr s')). length srcs < addrmax)"
proof (rule mainloop_invariant[OF assms(1),
    where I = "\<lambda>s. length (sources s) < addrmax \<and>
         (\<forall>srcs\<in>set (oracle_notes (stderr s)). length srcs < addrmax)"])
  show "length (sources s) < addrmax \<and>
      (\<forall>srcs\<in>set (oracle_notes (stderr s)). length srcs < addrmax)"
    using assms(2,3) by simp
next
  fix t t'
  assume i: "length (sources t) < addrmax \<and>
      (\<forall>srcs\<in>set (oracle_notes (stderr t)). length srcs < addrmax)"
    and a: "attempt ipver addrmax t = Inr t'"
  from attempt_length[OF a] i have l: "length (sources t') < addrmax" by simp
  with attempt_notes[OF a] i
  show "length (sources t') < addrmax \<and>
      (\<forall>srcs\<in>set (oracle_notes (stderr t')). length srcs < addrmax)"
    by auto
qed

lemma finish_fields [simp]:
  "sources (finish s) = sources s" "a_var (finish s) = a_var s" "o_var (finish s) = o_var s"
  "stdout (finish s) = stdout s @ [ExitX]" "stderr (finish s) = stderr s @ [Received ExitX]"
  by (simp_all add: finish_def)

lemma init_fields [simp]:
  "sources (init t) = []" "a_var (init t) = None" "o_var (init t) = 0"
  "stdout (init t) = []" "stderr (init t) = []" "rnd (init t) = \<lparr>tape = t, pos = 0\<rparr>"
  by (simp_all add: init_def)

lemma main_length:
  assumes "main mt seed ipver addrmax numops fuel = Some (Inr s)"
  shows "int (length (sources s)) < addrmax \<and>
         (\<forall>srcs\<in>set (oracle_notes (stderr s)). int (length srcs) < addrmax)"
  using assms
proof (cases rule: main_Inr)
  case (1 s0)
  from 1(2) have "length (sources (init (mt seed))) < nat addrmax" by simp
  from mainloop_length[OF 1(4) this] 1(2,5) show ?thesis
    by (auto simp: oracle_notes_append)
qed


subsection \<open>Running the script on a constant tape\<close>

lemma mkbits_loop_none:
  assumes "\<And>i. d \<le> of_nat (tape g i mod 2 ^ 53) / 2 ^ 53"
  shows "mkbits_loop is d b g = (b, g\<lparr>pos := pos g + length is\<rparr>)"
  using assms
proof (induction "is" arbitrary: g)
  case Nil
  then show ?case by simp
next
  case (Cons i "is")
  let ?g1 = "g\<lparr>pos := Suc (pos g)\<rparr>"
  have u: "rnd_uniform 0 1 g = (of_nat (tape g (pos g) mod 2 ^ 53) / 2 ^ 53, ?g1)"
    by (simp add: rnd_uniform_def rnd_random_def)
  have "\<not> of_nat (tape g (pos g) mod 2 ^ 53) / 2 ^ 53 < d"
    using Cons.prems[of "pos g"] by simp
  moreover have "mkbits_loop is d b ?g1 = (b, ?g1\<lparr>pos := pos ?g1 + length is\<rparr>)"
  proof (rule Cons.IH)
    fix j show "d \<le> of_nat (tape ?g1 j mod 2 ^ 53) / 2 ^ 53"
      using Cons.prems[of j] by simp
  qed
  ultimately show ?case using u by simp
qed

lemma synth_const:
  assumes "tape g = (\<lambda>_. c)"
  shows "synth ipver a g =
     (if ipver = 4 then ((case a of None \<Rightarrow> 0x0a000000 | Some x \<Rightarrow> x), g\<lparr>pos := pos g + 25\<rparr>)
      else ((case a of None \<Rightarrow> 0xfd05aaaa000000000000000000000000 | Some x \<Rightarrow> x),
            g\<lparr>pos := pos g + 97\<rparr>))"
proof -
  let ?u = "of_nat (c mod 2 ^ 53) / 2 ^ 53 :: rat"
  let ?g1 = "g\<lparr>pos := Suc (pos g)\<rparr>"
  have d: "density_arg ipver g = (modden ipver * ?u, ?g1)"
    using assms by (simp add: density_arg_def rnd_uniform_def rnd_random_def)
  have u0: "0 \<le> ?u" by simp
  have "modden ipver \<le> 1" by (simp add: modden_def)
  then have "modden ipver * ?u \<le> 1 * ?u" using u0 by (intro mult_right_mono)
  then have le: "modden ipver * ?u \<le> ?u" by (simp only: mult_1)
  have m: "mkbits l (modden ipver * ?u) ?g1 = (0, ?g1\<lparr>pos := pos ?g1 + l\<rparr>)" for l
    unfolding mkbits_def using le assms by (subst mkbits_loop_none) simp_all
  show ?thesis
  proof (cases "ipver = 4")
    case True
    then show ?thesis unfolding synth_def mkaddr_def d using m[of 24]
      by (simp add: add.commute)
  next
    case False
    then show ?thesis unfolding synth_def mkaddr_def d using m[of 96]
      by (simp add: add.commute)
  qed
qed


subsection \<open>An example run\<close>

lemma tape2_const: "tape2 seed = (\<lambda>_. 2)"
  by (rule ext) (simp add: tape2_def)

lemma abs_loop2:
  "abs_loop 4 3 [] None (gen2 0) = Inr ([167772160, 167772160], Some 167772160, gen2 31)"
  unfolding gen2_def tape2_const
  apply (subst abs_loop.simps)
  apply (simp add: lencond_def rnd_randrange_def abs_cand_def synth_const)
  apply (subst abs_loop.simps)
  apply (simp add: lencond_def rnd_randrange_def abs_cand_def synth_const rnd_uniform_def
      rnd_random_def rnd_choice_def)
  apply (subst abs_loop.simps)
  apply (simp add: lencond_def rnd_randrange_def)
  done

lemma attempt2: "attempt 4 3 (init (tape2 0)) = Inr s2_step"
  using abs_loop2 by (simp add: attempt_def absolute_def init_def emit_def s2_step_def gen2_def)

lemma main2: "main tape2 0 4 3 1 1 = Some (Inr (finish s2_step))"
proof -
  have "mainloop 1 4 3 1 (init (tape2 0)) = Some (Inr s2_step)"
    apply (subst mainloop.simps)
    apply (simp add: attempt2)
    apply (subst mainloop.simps)
    apply (simp add: s2_step_def)
    done
  then show ?thesis by (simp add: main_def)
qed

lemma add_loop2_full:
  "add_loop 4 1 [167772160, 167772160] [] (Some 167772160) (gen2 31) = Inr ([], Some 167772160, gen2 33)"
  unfolding gen2_def tape2_const
  by (subst add_loop.simps) (simp add: lencond_def rnd_randrange_def)

text \<open>
  C2: after every accepted step the source list is shorter than addrmax: the source
  settings the oracle stream records, and the list at the end of a run, all have a
  length below addrmax; one pass keeps the bound; the absolute loop never builds a
  delta of length addrmax or more; an additive delta whose union with the source list
  has addrmax members or more is not accepted.
\<close>

theorem C2_sources_below_addrmax:
  "(main mt seed ipver addrmax numops fuel = Some (Inr s) \<longrightarrow>
      int (length (sources s)) < addrmax \<and>
      (\<forall>srcs\<in>set (oracle_notes (stderr s)). 0 \<le> int (length srcs) \<and> int (length srcs) < addrmax))
   \<and> (attempt ipver m st = Inr st' \<and> length (sources st) < m \<longrightarrow> length (sources st') < m)
   \<and> (abs_loop ipver m [] a g = Inr (delta, a', g') \<longrightarrow> length delta < m)
   \<and> (add_loop ipver m (sources st) [] (a_var st) (rnd st) = Inr (delta2, a2, g2)
        \<and> m \<le> card (set (sources st) \<union> set delta2)
       \<longrightarrow> additive ipver m st = Inr (st\<lparr>a_var := a2, rnd := g2\<rparr>))"
proof -
  have 1: "int (length (sources s)) < addrmax \<and>
      (\<forall>srcs\<in>set (oracle_notes (stderr s)). 0 \<le> int (length srcs) \<and> int (length srcs) < addrmax)"
    if "main mt seed ipver addrmax numops fuel = Some (Inr s)"
    using main_length[OF that] by simp
  have 2: "length (sources st') < m"
    if "attempt ipver m st = Inr st' \<and> length (sources st) < m"
    using that attempt_length by blast
  have 3: "length delta < m" if "abs_loop ipver m [] a g = Inr (delta, a', g')"
    using abs_loop_len[OF that] by simp
  have 4: "additive ipver m st = Inr (st\<lparr>a_var := a2, rnd := g2\<rparr>)"
    if "add_loop ipver m (sources st) [] (a_var st) (rnd st) = Inr (delta2, a2, g2)
        \<and> m \<le> card (set (sources st) \<union> set delta2)"
    using that by (simp add: additive_def fold_insert_set Un_commute)
  from 1 2 3 4 show ?thesis by blast
qed

theorem C2_witness:
  "main tape2 0 4 3 1 1 = Some (Inr (finish s2_step))
   \<and> int (length (sources (finish s2_step))) < 3
   \<and> oracle_notes (stderr (finish s2_step)) = [[167772160, 167772160]]
   \<and> attempt 4 3 (init (tape2 0)) = Inr s2_step
   \<and> length (sources (init (tape2 0))) < 3 \<and> length (sources s2_step) < 3
   \<and> abs_loop 4 3 [] None (gen2 0) = Inr ([167772160, 167772160], Some 167772160, gen2 31)
   \<and> add_loop 4 1 (sources s2_step) [] (a_var s2_step) (rnd s2_step)
        = Inr ([], Some 167772160, gen2 33)
   \<and> 1 \<le> card (set (sources s2_step) \<union> set [])
   \<and> additive 4 1 s2_step = Inr (s2_step\<lparr>a_var := Some 167772160, rnd := gen2 33\<rparr>)"
proof -
  have n: "oracle_notes (stderr (finish s2_step)) = [[167772160, 167772160]]"
    by (simp add: s2_step_def)
  have al: "add_loop 4 1 (sources s2_step) [] (a_var s2_step) (rnd s2_step)
        = Inr ([], Some 167772160, gen2 33)"
    using add_loop2_full by (simp add: s2_step_def)
  have c: "1 \<le> card (set (sources s2_step) \<union> set [])" by (simp add: s2_step_def)
  have l: "length (sources (init (tape2 0))) < 3" by simp
  from C2_sources_below_addrmax[of tape2 0 4 3 1 1 "finish s2_step" 1 s2_step
      "s2_step\<lparr>a_var := Some 167772160, rnd := gen2 33\<rparr>" None "gen2 0"
      "[167772160, 167772160]" "Some 167772160" "gen2 31" "[]" "Some 167772160" "gen2 33"]
    C2_sources_below_addrmax[of tape2 0 4 3 1 1 "finish s2_step" 3 "init (tape2 0)" s2_step
      None "gen2 0" "[167772160, 167772160]" "Some 167772160" "gen2 31" "[]" "Some 167772160" "gen2 33"]
    main2 attempt2 abs_loop2 al c l n
  show ?thesis by simp
qed


subsection \<open>Addresses stay in the base network\<close>

lemma in_net_iff:
  "in_net ipver x = (if ipver = 4 then drop_bit 24 x = 10 else drop_bit 96 x = 0xfd05aaaa)"
  by (simp add: in_net_def drop_bit_eq_div)

lemma state_addrs_emit:
  "state_addrs (emit deltype delta t) = state_addrs t \<union> set delta"
  by (auto simp: state_addrs_def emit_def)

lemma state_addrs_update:
  "state_addrs (s\<lparr>sources := xs, a_var := a, rnd := g\<rparr>)
     \<subseteq> set xs \<union> set_option a \<union> state_addrs s"
  by (auto simp: state_addrs_def)

lemma state_addrs_rnd: "state_addrs (s\<lparr>rnd := g\<rparr>) = state_addrs s"
  by (simp add: state_addrs_def)

lemma sources_in_state_addrs: "set (sources s) \<subseteq> state_addrs s"
  by (auto simp: state_addrs_def)

lemma a_var_in_state_addrs: "a_var s = Some x \<Longrightarrow> x \<in> state_addrs s"
  by (auto simp: state_addrs_def)

lemma absolute_in_net:
  assumes "absolute ipver addrmax s = Inr s'" "\<forall>x\<in>state_addrs s. in_net ipver x"
  shows "\<forall>x\<in>state_addrs s'. in_net ipver x"
  using assms(1)
proof (cases rule: absolute_Inr)
  case (1 delta a g)
  have "(\<forall>x\<in>set []. in_net ipver x) \<and> (\<forall>x. a_var s = Some x \<longrightarrow> in_net ipver x)"
    using assms(2) a_var_in_state_addrs by auto
  with abs_loop_in_net[OF 1(1)]
  have d: "\<forall>x\<in>set delta. in_net ipver x" and a: "\<forall>x. a = Some x \<longrightarrow> in_net ipver x"
    by simp_all
  have "state_addrs s' \<subseteq> set delta \<union> set_option a \<union> state_addrs s"
    unfolding 1(2) state_addrs_emit
    using state_addrs_update[where s = s and xs = "sort delta" and a = a and g = g] by auto
  with d a assms(2) show ?thesis by (cases a) auto
qed

lemma subtractive_in_net:
  assumes "subtractive ipver s = Inr s'" "\<forall>x\<in>state_addrs s. in_net ipver x"
  shows "\<forall>x\<in>state_addrs s'. in_net ipver x"
proof -
  have pre: "(\<forall>x\<in>set []. in_net ipver x) \<and> (\<forall>x. a_var s = Some x \<longrightarrow> in_net ipver x)"
    using assms(2) a_var_in_state_addrs by auto
  have srcs: "\<forall>x\<in>set (sources s). in_net ipver x"
    using assms(2) sources_in_state_addrs by blast
  from assms(1) show ?thesis
  proof (cases rule: subtractive_Inr)
    case (reject a g)
    from sub_loop_in_net[OF reject(1) srcs] pre
    have a: "\<forall>x. a = Some x \<longrightarrow> in_net ipver x" by simp
    have "state_addrs s' \<subseteq> set_option a \<union> state_addrs s"
      unfolding reject(2) by (auto simp: state_addrs_def)
    with a assms(2) show ?thesis by (cases a) auto
  next
    case (accept delta a g)
    from sub_loop_in_net[OF accept(1) srcs] pre
    have d: "\<forall>x\<in>set delta. in_net ipver x" and a: "\<forall>x. a = Some x \<longrightarrow> in_net ipver x"
      by simp_all
    have "state_addrs s' \<subseteq> set delta \<union> set_option a \<union> state_addrs s"
      unfolding accept(3) state_addrs_emit
      using state_addrs_update[where s = s and xs = "filter (\<lambda>x. x \<notin> set delta) (sources s)" and a = a and g = g]
        sources_in_state_addrs[of s] by auto
    with d a assms(2) show ?thesis by (cases a) auto
  qed
qed

lemma additive_in_net:
  assumes "additive ipver addrmax s = Inr s'" "\<forall>x\<in>state_addrs s. in_net ipver x"
  shows "\<forall>x\<in>state_addrs s'. in_net ipver x"
proof -
  have pre: "(\<forall>x\<in>set []. in_net ipver x) \<and> (\<forall>x. a_var s = Some x \<longrightarrow> in_net ipver x)"
    using assms(2) a_var_in_state_addrs by auto
  have srcs: "\<forall>x\<in>set (sources s). in_net ipver x"
    using assms(2) sources_in_state_addrs by blast
  from assms(1) show ?thesis
  proof (cases rule: additive_Inr)
    case (reject delta a g)
    from add_loop_in_net[OF reject(1) srcs] pre
    have a: "\<forall>x. a = Some x \<longrightarrow> in_net ipver x" by simp
    have "state_addrs s' \<subseteq> set_option a \<union> state_addrs s"
      unfolding reject(3) by (auto simp: state_addrs_def)
    with a assms(2) show ?thesis by (cases a) auto
  next
    case (accept delta a g)
    from add_loop_in_net[OF accept(1) srcs] pre
    have d: "\<forall>x\<in>set delta. in_net ipver x" and a: "\<forall>x. a = Some x \<longrightarrow> in_net ipver x"
      by simp_all
    have "state_addrs s' \<subseteq> set delta \<union> set_option a \<union> state_addrs s"
      unfolding accept(4) state_addrs_emit
      using state_addrs_update[where s = s and xs = "sorted_list_of_set (set (sources s) \<union> set delta)" and a = a and g = g]
        sources_in_state_addrs[of s] by auto
    with d a assms(2) show ?thesis by (cases a) auto
  qed
qed

lemma attempt_in_net:
  assumes "attempt ipver addrmax s = Inr s'" "\<forall>x\<in>state_addrs s. in_net ipver x"
  shows "\<forall>x\<in>state_addrs s'. in_net ipver x"
  using assms(1)
proof (cases rule: attempt_Inr)
  case (abs g)
  then show ?thesis using absolute_in_net[of ipver addrmax "s\<lparr>rnd := g\<rparr>" s'] assms(2)
    by (simp add: state_addrs_rnd)
next
  case (sub g)
  then show ?thesis using subtractive_in_net[of ipver "s\<lparr>rnd := g\<rparr>" s'] assms(2)
    by (simp add: state_addrs_rnd)
next
  case (add g)
  then show ?thesis using additive_in_net[of ipver addrmax "s\<lparr>rnd := g\<rparr>" s'] assms(2)
    by (simp add: state_addrs_rnd)
qed

lemma main_in_net:
  assumes "main mt seed ipver addrmax numops fuel = Some (Inr s)"
  shows "\<forall>x\<in>state_addrs s. in_net ipver x"
  using assms
proof (cases rule: main_Inr)
  case (1 s0)
  have i: "\<forall>x\<in>state_addrs (init (mt seed)). in_net ipver x"
    by (simp add: state_addrs_def)
  have "\<forall>x\<in>state_addrs s0. in_net ipver x"
    by (rule mainloop_invariant[OF 1(4), where I = "\<lambda>s. \<forall>x\<in>state_addrs s. in_net ipver x"])
       (use i attempt_in_net in blast)+
  moreover have "state_addrs s = state_addrs s0"
    unfolding 1(5) by (simp add: state_addrs_def)
  ultimately show ?thesis by simp
qed

text \<open>
  C6: the bit vector of the synthesizer has only host bits (24 for version 4, 96
  otherwise), so the synthesized address keeps the network bits of the address it
  starts from, which are those of 10.0.0.0 or fd05:aaaa:: when it starts from nothing;
  and every address a finished run holds or has printed has the top 8 bits of 10.0.0.0
  (version 4) or the top 32 bits of fd05:aaaa:: (version 6).
\<close>

theorem C6_addresses_in_base_network:
  "(0 \<le> fst (mkbits l d g) \<and> fst (mkbits l d g) < 2 ^ l)
   \<and> drop_bit 24 (fst (mkaddr 4 (Some b) d g)) = drop_bit 24 b
   \<and> drop_bit 24 (fst (mkaddr 4 None d g)) = 10
   \<and> (ipver \<noteq> 4 \<longrightarrow> drop_bit 96 (fst (mkaddr ipver (Some b) d g)) = drop_bit 96 b
                      \<and> drop_bit 96 (fst (mkaddr ipver None d g)) = 0xfd05aaaa)
   \<and> (main mt seed ipver addrmax numops fuel = Some (Inr s) \<longrightarrow>
        (\<forall>x\<in>state_addrs s.
           if ipver = 4 then drop_bit 24 x = 10 else ipver = 6 \<and> drop_bit 96 x = 0xfd05aaaa))"
proof -
  have 1: "0 \<le> fst (mkbits l d g) \<and> fst (mkbits l d g) < 2 ^ l" by (rule mkbits_bound)
  have 2: "drop_bit 24 (fst (mkaddr 4 (Some b) d g)) = drop_bit 24 b"
    using mkaddr_prefix4[of "Some b" d g] by simp
  have 3: "drop_bit 24 (fst (mkaddr 4 None d g)) = 10"
    using mkaddr_prefix4[of None d g] by (simp add: drop_bit_eq_div)
  have 4: "drop_bit 96 (fst (mkaddr ipver (Some b) d g)) = drop_bit 96 b
      \<and> drop_bit 96 (fst (mkaddr ipver None d g)) = 0xfd05aaaa" if "ipver \<noteq> 4"
    using mkaddr_prefix6[OF that, of "Some b" d g] mkaddr_prefix6[OF that, of None d g]
    by (simp add: drop_bit_eq_div)
  have 5: "\<forall>x\<in>state_addrs s.
      if ipver = 4 then drop_bit 24 x = 10 else ipver = 6 \<and> drop_bit 96 x = 0xfd05aaaa"
    if m: "main mt seed ipver addrmax numops fuel = Some (Inr s)"
  proof -
    from m have v: "ipver = 4 \<or> ipver = 6" by (cases rule: main_Inr)
    from main_in_net[OF m] v show ?thesis by (auto simp: in_net_iff)
  qed
  from 1 2 3 4 5 show ?thesis by blast
qed

lemma mkaddr6_example:
  "fst (mkaddr 6 None 0 (gen2 0)) = 0xfd05aaaa000000000000000000000000"
proof -
  have "mkbits 96 0 (gen2 0) = (0, (gen2 0)\<lparr>pos := pos (gen2 0) + 96\<rparr>)"
    unfolding mkbits_def by (subst mkbits_loop_none) simp_all
  then show ?thesis by (simp add: mkaddr_def)
qed

theorem C6_witness:
  "main tape2 0 4 3 1 1 = Some (Inr (finish s2_step))
   \<and> state_addrs (finish s2_step) = {167772160}
   \<and> drop_bit 24 (167772160 :: int) = 10
   \<and> (6 :: int) \<noteq> 4
   \<and> fst (mkaddr 6 None 0 (gen2 0)) = 0xfd05aaaa000000000000000000000000
   \<and> drop_bit 96 (0xfd05aaaa000000000000000000000000 :: int) = 0xfd05aaaa"
proof -
  have a: "state_addrs (finish s2_step) = {167772160}"
    by (auto simp: state_addrs_def s2_step_def)
  from C6_addresses_in_base_network[of 24 0 "gen2 0" 0 6 tape2 0 3 1 1 "finish s2_step"]
  have "drop_bit 96 (fst (mkaddr 6 None 0 (gen2 0))) = (0xfd05aaaa :: int)" by simp
  moreover
  from C6_addresses_in_base_network[of 24 0 "gen2 0" 0 4 tape2 0 3 1 1 "finish s2_step"] main2 a
  have "drop_bit 24 (167772160 :: int) = 10" by simp
  ultimately show ?thesis using main2 a mkaddr6_example by simp
qed


subsection \<open>No sampling from an empty sequence\<close>

lemma abs_loop_Inl: "abs_loop ipver addrmax delta a g = Inl e \<Longrightarrow> e = ValueError \<and> addrmax = 0"
proof (cases "addrmax = 0")
  case True
  assume "abs_loop ipver addrmax delta a g = Inl e"
  with True show ?thesis
    by (subst (asm) abs_loop.simps) (simp add: lencond_def rnd_randrange_def)
next
  case False
  assume "abs_loop ipver addrmax delta a g = Inl e"
  with abs_loop_ok[of addrmax ipver delta a g] False show ?thesis by auto
qed

lemma add_loop_Inl:
  "add_loop ipver addrmax srcs delta a g = Inl e \<Longrightarrow> e = ValueError \<and> addrmax = 0"
proof (cases "addrmax = 0")
  case True
  assume "add_loop ipver addrmax srcs delta a g = Inl e"
  with True show ?thesis
    by (subst (asm) add_loop.simps) (simp add: lencond_def rnd_randrange_def)
next
  case False
  assume "add_loop ipver addrmax srcs delta a g = Inl e"
  with add_loop_ok[of addrmax ipver srcs delta a g] False show ?thesis by auto
qed

lemma absolute_Inl: "absolute ipver addrmax s = Inl e \<Longrightarrow> e = ValueError \<and> addrmax = 0"
  by (auto simp: absolute_def split: sum.splits dest: abs_loop_Inl)

lemma additive_Inl: "additive ipver addrmax s = Inl e \<Longrightarrow> e = ValueError \<and> addrmax = 0"
  by (auto simp: additive_def Let_def split: sum.splits if_splits dest: add_loop_Inl)

lemma subtractive_not_Inl: "subtractive ipver s \<noteq> Inl e"
  using sub_loop_ok[of ipver "sources s" "[]" "a_var s" "rnd s"]
  by (auto simp: subtractive_def Let_def split: sum.splits)

lemma attempt_Inl: "attempt ipver addrmax s = Inl e \<Longrightarrow> e = ValueError \<and> addrmax = 0"
  using subtractive_not_Inl
  by (auto simp: attempt_def rnd_choice_def split: prod.splits if_splits sum.splits
      dest: absolute_Inl additive_Inl)

lemma mainloop_Inl:
  "mainloop fuel ipver addrmax numops s = Some (Inl e) \<Longrightarrow> e = ValueError \<and> addrmax = 0"
proof (induction fuel arbitrary: s)
  case 0
  then show ?case by (subst (asm) mainloop.simps) (auto split: if_splits)
next
  case (Suc fuel)
  show ?case
  proof (cases "o_var s < numops")
    case False
    with Suc.prems show ?thesis by (subst (asm) mainloop.simps) simp
  next
    case True
    show ?thesis
    proof (cases "attempt ipver addrmax s")
      case (Inl e')
      with True Suc.prems have "e' = e" by (subst (asm) mainloop.simps) simp
      with Inl show ?thesis using attempt_Inl by blast
    next
      case (Inr s1)
      with True Suc.prems have "mainloop fuel ipver addrmax numops s1 = Some (Inl e)"
        by (subst (asm) mainloop.simps) simp
      then show ?thesis by (rule Suc.IH)
    qed
  qed
qed

lemma main_Inl:
  assumes "main mt seed ipver addrmax numops fuel = Some (Inl e)"
  shows "e \<in> {Exception ''ipver must be 4 or 6'', Exception ''addrmax must be positive'',
              Exception ''numops must be positive''}"
proof -
  have "False" if "mainloop fuel ipver (nat addrmax) (nat numops) (init (mt seed)) = Some (Inl e)"
      "1 \<le> addrmax"
    using mainloop_Inl[OF that(1)] that(2) by simp
  with assms show ?thesis
    by (auto simp: main_def split: if_splits option.splits sum.splits)
qed

lemma sub_loop_empty:
  "sub_loop ipver [] [] a g = Inr ([], a, g\<lparr>pos := pos g + 2\<rparr>)"
  by (subst sub_loop.simps) (simp add: lencond_def rnd_randrange_def)

text \<open>
  C10: \<open>rnd.choice\<close> raises IndexError exactly on an empty sequence, and no candidate
  step, no pass of the loop and no run raises it, from any state and on any tape: the
  choice from the delta or from the source list is made only when that list is not
  empty. With an empty source list every length bound of the subtractive branch is 0:
  the branch draws two of them, builds nothing and rejects the attempt, and only the
  generator moves, by these two draws.
\<close>

theorem C10_choice_never_on_empty:
  "(rnd_choice delta g = Inl IndexError \<longleftrightarrow> delta = [])
   \<and> abs_cand ipver delta a g \<noteq> Inl IndexError
   \<and> sub_cand ipver srcs a g \<noteq> Inl IndexError
   \<and> add_cand ipver srcs a g \<noteq> Inl IndexError
   \<and> attempt ipver m st \<noteq> Inl IndexError
   \<and> main mt seed ipver addrmax numops fuel \<noteq> Some (Inl IndexError)
   \<and> (sources st = [] \<longrightarrow>
        rnd_randrange (length (sources st) + drop_bit 2 (length (sources st)) + 1) g
          = Inr (0, g\<lparr>pos := Suc (pos g)\<rparr>)
        \<and> sub_loop ipver (sources st) [] (a_var st) (rnd st)
          = Inr ([], a_var st, (rnd st)\<lparr>pos := pos (rnd st) + 2\<rparr>)
        \<and> subtractive ipver st = Inr (st\<lparr>rnd := (rnd st)\<lparr>pos := pos (rnd st) + 2\<rparr>\<rparr>))"
proof -
  have 1: "rnd_choice delta g = Inl IndexError \<longleftrightarrow> delta = []"
    by (simp add: rnd_choice_def)
  have 2: "abs_cand ipver delta a g \<noteq> Inl IndexError"
    using abs_cand_ok[of ipver delta a g] by auto
  have 3: "sub_cand ipver srcs a g \<noteq> Inl IndexError"
    using sub_cand_ok[of ipver srcs a g] by auto
  have 4: "add_cand ipver srcs a g \<noteq> Inl IndexError"
    using add_cand_ok[of ipver srcs a g] by auto
  have 5: "attempt ipver m st \<noteq> Inl IndexError"
    using attempt_Inl[of ipver m st IndexError] by auto
  have 6: "main mt seed ipver addrmax numops fuel \<noteq> Some (Inl IndexError)"
    using main_Inl[of mt seed ipver addrmax numops fuel IndexError] by auto
  have 7: "rnd_randrange (length (sources st) + drop_bit 2 (length (sources st)) + 1) g
          = Inr (0, g\<lparr>pos := Suc (pos g)\<rparr>)
        \<and> sub_loop ipver (sources st) [] (a_var st) (rnd st)
          = Inr ([], a_var st, (rnd st)\<lparr>pos := pos (rnd st) + 2\<rparr>)
        \<and> subtractive ipver st = Inr (st\<lparr>rnd := (rnd st)\<lparr>pos := pos (rnd st) + 2\<rparr>\<rparr>)"
    if "sources st = []"
    using that by (simp add: subtractive_def sub_loop_empty rnd_randrange_def)
  from 1 2 3 4 5 6 7 show ?thesis by blast
qed

theorem C10_witness:
  "sources (init (tape2 0)) = []
   \<and> rnd_randrange (length ([] :: addr list) + drop_bit 2 (length ([] :: addr list)) + 1) (gen2 0)
       = Inr (0, gen2 1)
   \<and> sub_loop 4 [] [] None (gen2 0) = Inr ([], None, gen2 2)
   \<and> subtractive 4 (init (tape2 0)) = Inr ((init (tape2 0))\<lparr>rnd := gen2 2\<rparr>)
   \<and> attempt 4 3 (init (tape2 0)) = Inr s2_step"
  using C10_choice_never_on_empty[of "[]" "gen2 0" 4 None "[]" 3 "init (tape2 0)" tape2 0 3 1 1]
    attempt2
  by (simp add: gen2_def)


subsection \<open>The thresholds as doubles\<close>

text \<open>
  A value of \<open>random()\<close> is \<open>k / 2^53\<close>. Against such a value the doubles of \<open>0.4\<close>
  (\<open>3602879701896397 / 2^53\<close>) and of \<open>0.2\<close> (\<open>3602879701896397 / 2^54\<close>) decide as the
  fractions \<open>4 / 10\<close> and \<open>2 / 10\<close> do. The double of \<open>0.6\<close> does not decide as
  \<open>6 / 10\<close> does: exactly 5404319552844595 of the \<open>2^53\<close> values are below it.
\<close>

lemma draw_less_iff:
  "((of_nat k :: rat) / 2 ^ 53 < of_nat c / 2 ^ 53) = (k < c)"
proof -
  have "((of_nat k :: rat) / 2 ^ 53 < of_nat c / 2 ^ 53) = ((of_nat k :: rat) < of_nat c)"
    by (simp add: divide_less_cancel)
  then show ?thesis by (simp only: of_nat_less_iff)
qed

lemma uniform_01: "fst (rnd_uniform 0 1 g) = of_nat (tape g (pos g) mod 2 ^ 53) / 2 ^ 53"
  by (simp add: rnd_uniform_def rnd_random_def)

lemma threshold_04_exact:
  "(fst (rnd_uniform 0 1 g) < 4 / 10) = (fst (rnd_uniform 0 1 g) < 3602879701896397 / 2 ^ 53)"
proof -
  define k where "k = tape g (pos g) mod 2 ^ 53"
  have "((of_nat k :: rat) / 2 ^ 53 < 4 / 10) = ((of_nat k :: rat) * 10 < 4 * 2 ^ 53)"
    by (simp add: field_simps)
  also have "\<dots> = ((of_nat (k * 10) :: rat) < of_nat (4 * 2 ^ 53))"
    by simp
  also have "\<dots> = (k * 10 < 4 * 2 ^ 53)"
    by (simp only: of_nat_less_iff)
  also have "\<dots> = (k < 3602879701896397)"
    by simp linarith
  also have "\<dots> = ((of_nat k :: rat) / 2 ^ 53 < of_nat 3602879701896397 / 2 ^ 53)"
    by (simp only: draw_less_iff)
  finally show ?thesis unfolding uniform_01 k_def by simp
qed

lemma threshold_02_exact:
  "(fst (rnd_uniform 0 1 g) < 2 / 10) = (fst (rnd_uniform 0 1 g) < 3602879701896397 / 2 ^ 54)"
proof -
  define k where "k = tape g (pos g) mod 2 ^ 53"
  have "((of_nat k :: rat) / 2 ^ 53 < 2 / 10) = ((of_nat k :: rat) * 10 < 2 * 2 ^ 53)"
    by (simp add: field_simps)
  also have "\<dots> = ((of_nat (k * 10) :: rat) < of_nat (2 * 2 ^ 53))"
    by simp
  also have "\<dots> = (k * 10 < 2 * 2 ^ 53)"
    by (simp only: of_nat_less_iff)
  also have "\<dots> = (k * 2 < 3602879701896397)"
    by simp linarith
  also have "\<dots> = ((of_nat (k * 2) :: rat) < of_nat 3602879701896397)"
    by (simp only: of_nat_less_iff)
  also have "\<dots> = ((of_nat k :: rat) / 2 ^ 53 < 3602879701896397 / 2 ^ 54)"
    by (simp add: field_simps)
  finally show ?thesis unfolding uniform_01 k_def by simp
qed

lemma threshold_06_differs:
  "fst (rnd_uniform 0 1 \<lparr>tape = \<lambda>_. 5404319552844595, pos = 0\<rparr>) < 6 / 10
   \<and> \<not> fst (rnd_uniform 0 1 \<lparr>tape = \<lambda>_. 5404319552844595, pos = 0\<rparr>) < 5404319552844595 / 2 ^ 53"
  by (simp add: rnd_uniform_def rnd_random_def)


subsection \<open>The additive and the subtractive branch\<close>

lemma additive_reject:
  assumes "add_loop ipver addrmax (sources s) [] (a_var s) (rnd s) = Inr (delta, a, g)"
    "delta = [] \<or> addrmax \<le> card (set (sources s) \<union> set delta)"
  shows "additive ipver addrmax s = Inr (s\<lparr>a_var := a, rnd := g\<rparr>)"
  using assms by (auto simp: additive_def fold_insert_set Un_commute Let_def)

lemma additive_accept:
  assumes "add_loop ipver addrmax (sources s) [] (a_var s) (rnd s) = Inr (delta, a, g)"
    "delta \<noteq> []" "card (set (sources s) \<union> set delta) < addrmax"
  shows "additive ipver addrmax s =
     Inr (emit ''+'' delta
            (s\<lparr>sources := sorted_list_of_set (set (sources s) \<union> set delta),
               a_var := a, rnd := g\<rparr>))"
  using assms by (auto simp: additive_def fold_insert_set Un_commute Let_def)

text \<open>
  C5: with the delta that the additive loop has built, the attempt is rejected exactly
  when the delta is empty or the union of the source list and the delta has addrmax
  members or more. A rejected attempt leaves the source list, the counter and both
  streams as they were. An accepted one makes the source list the sorted list, without
  duplicates, of that union, counts the step and prints it.
\<close>

theorem C5_additive_accept_reject:
  assumes "add_loop ipver addrmax (sources s) [] (a_var s) (rnd s) = Inr (delta, a, g)"
  shows "\<exists>s'. additive ipver addrmax s = Inr s' \<and>
     (if delta = [] \<or> addrmax \<le> card (set (sources s) \<union> set delta)
      then sources s' = sources s \<and> o_var s' = o_var s \<and> stdout s' = stdout s
           \<and> stderr s' = stderr s
      else sources s' = sorted_list_of_set (set (sources s) \<union> set delta)
           \<and> sorted (sources s') \<and> distinct (sources s')
           \<and> set (sources s') = set (sources s) \<union> set delta
           \<and> o_var s' = o_var s + 1
           \<and> stdout s' = stdout s @ [SetE ''+'' delta, QueryE]
           \<and> stderr s' = stderr s @ [Received (SetE ''+'' delta), Received QueryE,
                                      Note (sources s')])"
proof (cases "delta = [] \<or> addrmax \<le> card (set (sources s) \<union> set delta)")
  case True
  from additive_reject[OF assms True] True show ?thesis by simp
next
  case False
  then have "delta \<noteq> []" "card (set (sources s) \<union> set delta) < addrmax" by simp_all
  from additive_accept[OF assms this] False show ?thesis by (simp add: emit_def)
qed

lemma two_mod_Suc_Suc: "2 mod Suc (Suc 0) = 0"
  by (simp add: numeral_2_eq_2)

lemma add_loop2_accept:
  "add_loop 4 3 [167772160, 167772160] [] (Some 167772160) (gen2 31)
     = Inr ([167772160, 167772160], Some 167772160, gen2 39)"
  unfolding gen2_def tape2_const
  apply (subst add_loop.simps)
  apply (simp add: lencond_def rnd_randrange_def add_cand_def rnd_uniform_def rnd_random_def
      rnd_choice_def two_mod_Suc_Suc)
  apply (subst add_loop.simps)
  apply (simp add: lencond_def rnd_randrange_def add_cand_def rnd_uniform_def rnd_random_def
      rnd_choice_def two_mod_Suc_Suc)
  apply (subst add_loop.simps)
  apply (simp add: lencond_def rnd_randrange_def)
  done

theorem C5_witness:
  "add_loop 4 3 (sources s2_step) [] (a_var s2_step) (rnd s2_step)
     = Inr ([167772160, 167772160], Some 167772160, gen2 39)
   \<and> card (set (sources s2_step) \<union> set [167772160, 167772160]) = 1
   \<and> (\<exists>s'. additive 4 3 s2_step = Inr s' \<and> sources s' = [167772160] \<and> o_var s' = 2
          \<and> stdout s' = stdout s2_step @ [SetE ''+'' [167772160, 167772160], QueryE]
          \<and> stderr s' = stderr s2_step @ [Received (SetE ''+'' [167772160, 167772160]),
                                         Received QueryE, Note [167772160]])
   \<and> add_loop 4 1 (sources s2_step) [] (a_var s2_step) (rnd s2_step)
       = Inr ([], Some 167772160, gen2 33)
   \<and> (\<exists>s'. additive 4 1 s2_step = Inr s' \<and> sources s' = sources s2_step \<and> o_var s' = 1
          \<and> stdout s' = stdout s2_step \<and> stderr s' = stderr s2_step)"
proof -
  have a: "add_loop 4 3 (sources s2_step) [] (a_var s2_step) (rnd s2_step)
     = Inr ([167772160, 167772160], Some 167772160, gen2 39)"
    using add_loop2_accept by (simp add: s2_step_def)
  have r: "add_loop 4 1 (sources s2_step) [] (a_var s2_step) (rnd s2_step)
       = Inr ([], Some 167772160, gen2 33)"
    using add_loop2_full by (simp add: s2_step_def)
  have c: "card (set (sources s2_step) \<union> set [167772160, 167772160]) = 1"
    by (simp add: s2_step_def)
  have u: "set (sources s2_step) \<union> set [167772160, 167772160] = {167772160}"
    by (auto simp: s2_step_def)
  have o: "o_var s2_step = 1" by (simp add: s2_step_def)
  from C5_additive_accept_reject[OF a]
  have 1: "\<exists>s'. additive 4 3 s2_step = Inr s' \<and> sources s' = [167772160] \<and> o_var s' = 2
          \<and> stdout s' = stdout s2_step @ [SetE ''+'' [167772160, 167772160], QueryE]
          \<and> stderr s' = stderr s2_step @ [Received (SetE ''+'' [167772160, 167772160]),
                                         Received QueryE, Note [167772160]]"
    unfolding u by (auto simp: o)
  from C5_additive_accept_reject[OF r] o
  have 2: "\<exists>s'. additive 4 1 s2_step = Inr s' \<and> sources s' = sources s2_step \<and> o_var s' = 1
          \<and> stdout s' = stdout s2_step \<and> stderr s' = stderr s2_step"
    by auto
  from a c 1 r 2 show ?thesis by blast
qed



lemma sub_cand_cases:
  "sub_cand ipver srcs a g =
     (if srcs = [] then Inr (synth ipver a g)
      else if fst (rnd_uniform 0 1 g) < 5404319552844595 / 2 ^ 53
           then rnd_choice srcs (snd (rnd_uniform 0 1 g))
           else Inr (synth ipver a (snd (rnd_uniform 0 1 g))))"
  by (simp add: sub_cand_def split: prod.splits)






subsection \<open>The shape of the two streams\<close>

lemma mainloop_invariant_lt:
  assumes "mainloop fuel ipver addrmax numops s = Some (Inr s')" "I s"
    and step: "\<And>s s'. I s \<Longrightarrow> o_var s < numops \<Longrightarrow> attempt ipver addrmax s = Inr s' \<Longrightarrow> I s'"
  shows "I s'"
  using assms(1,2)
proof (induction fuel arbitrary: s)
  case 0
  then show ?case by (subst (asm) mainloop.simps) (auto split: if_splits)
next
  case (Suc fuel)
  show ?case
  proof (cases "o_var s < numops")
    case False
    with Suc.prems show ?thesis by (subst (asm) mainloop.simps) simp
  next
    case True
    with Suc.prems(1) obtain s1 where a: "attempt ipver addrmax s = Inr s1"
      and m: "mainloop fuel ipver addrmax numops s1 = Some (Inr s')"
      by (subst (asm) mainloop.simps) (auto split: sum.splits)
    from step[OF Suc.prems(2) True a] have "I s1" .
    with m show ?thesis by (rule Suc.IH)
  qed
qed

lemma steps_inv_init: "steps_inv numops (init t)"
  by (simp add: steps_inv_def)

lemma steps_inv_attempt:
  assumes "steps_inv numops s" "o_var s < numops" "attempt ipver addrmax s = Inr s'"
  shows "steps_inv numops s'"
  using assms(3)
proof (cases rule: attempt_outcome)
  case reject
  with assms(1) show ?thesis by (simp add: steps_inv_def)
next
  case (accept deltype delta)
  from assms(1) obtain steps where s: "length steps = o_var s"
    "\<forall>st\<in>set steps. fst st = '''' \<or> (fst st = ''+'' \<or> fst st = ''-'') \<and> fst (snd st) \<noteq> []"
    "stdout s = concat (map (\<lambda>(deltype, delta, srcs). [SetE deltype delta, QueryE]) steps)"
    "stderr s = concat (map (\<lambda>(deltype, delta, srcs).
              [Received (SetE deltype delta), Received QueryE, Note srcs]) steps)"
    by (auto simp: steps_inv_def)
  let ?steps = "steps @ [(deltype, delta, sources s')]"
  have k: "deltype = '''' \<or> (deltype = ''+'' \<or> deltype = ''-'') \<and> delta \<noteq> []"
    using accept(4) by auto
  have "length ?steps = o_var s'" using s(1) accept(1) by simp
  moreover have "\<forall>st\<in>set ?steps.
      fst st = '''' \<or> (fst st = ''+'' \<or> fst st = ''-'') \<and> fst (snd st) \<noteq> []"
    using s(2) k by auto
  moreover have "stdout s' =
      concat (map (\<lambda>(deltype, delta, srcs). [SetE deltype delta, QueryE]) ?steps)"
    using s(3) accept(2) by simp
  moreover have "stderr s' = concat (map (\<lambda>(deltype, delta, srcs).
              [Received (SetE deltype delta), Received QueryE, Note srcs]) ?steps)"
    using s(4) accept(3) by simp
  moreover have "o_var s' \<le> numops" using assms(2) accept(1) by simp
  ultimately show ?thesis unfolding steps_inv_def by blast
qed

lemma mainloop_steps:
  assumes "mainloop fuel ipver addrmax numops (init t) = Some (Inr s)"
  shows "steps_inv numops s \<and> o_var s = numops"
proof -
  have "steps_inv numops s"
    by (rule mainloop_invariant_lt[OF assms, where I = "steps_inv numops"])
       (use steps_inv_init steps_inv_attempt in blast)+
  moreover from mainloop_done[OF assms] have "\<not> o_var s < numops" .
  ultimately show ?thesis by (auto simp: steps_inv_def)
qed

lemma step_primary_text:
  "map (cmdout inet_ntop ipver) [SetE deltype delta, QueryE]
     = step_primary inet_ntop ipver (deltype, delta, srcs)"
  by (simp add: step_primary_def addrsout_def)

lemma step_oracle_text:
  "map (oracleout inet_ntop ipver) [Received (SetE deltype delta), Received QueryE, Note srcs]
     = step_oracle inet_ntop ipver (deltype, delta, srcs)"
  by (simp add: step_oracle_def addrsout_def)

lemma steps_primary_text:
  "map (cmdout inet_ntop ipver)
     (concat (map (\<lambda>(deltype, delta, srcs). [SetE deltype delta, QueryE]) steps))
   = concat (map (step_primary inet_ntop ipver) steps)"
proof (induction steps)
  case Nil
  then show ?case by simp
next
  case (Cons st steps)
  obtain deltype delta srcs where st: "st = (deltype, delta, srcs)" by (cases st)
  show ?case unfolding st using Cons.IH step_primary_text[of inet_ntop ipver deltype delta srcs]
    by simp
qed

lemma steps_oracle_text:
  "map (oracleout inet_ntop ipver)
     (concat (map (\<lambda>(deltype, delta, srcs).
        [Received (SetE deltype delta), Received QueryE, Note srcs]) steps))
   = concat (map (step_oracle inet_ntop ipver) steps)"
proof (induction steps)
  case Nil
  then show ?case by simp
next
  case (Cons st steps)
  obtain deltype delta srcs where st: "st = (deltype, delta, srcs)" by (cases st)
  show ?case unfolding st using Cons.IH step_oracle_text[of inet_ntop ipver deltype delta srcs]
    by simp
qed

text \<open>
  C8: a run that ends has made exactly numops accepted steps. The primary stream is,
  for each step in order, the line \<open>-E\<close> + kind marker + comma separated addresses (or
  \<open>-\<close> for an empty list) and the line \<open>?E\<close>, then the one line \<open>.x\<close> and nothing
  more. The oracle stream is, for each step, the echo of the command, the echo of the
  query and the source setting, then the echo of \<open>.x\<close> and nothing more. The kind
  marker is empty, \<open>+\<close> or \<open>-\<close>, and only an absolute step has an empty list.
\<close>

theorem C8_output_shape:
  assumes "main mt seed ipver addrmax numops fuel = Some (Inr s)"
  shows "\<exists>steps. int (length steps) = numops
     \<and> (\<forall>st\<in>set steps. fst st = '''' \<or> (fst st = ''+'' \<or> fst st = ''-'') \<and> fst (snd st) \<noteq> [])
     \<and> map (cmdout inet_ntop ipver) (stdout s)
         = concat (map (step_primary inet_ntop ipver) steps) @ [''.x'']
     \<and> map (oracleout inet_ntop ipver) (stderr s)
         = concat (map (step_oracle inet_ntop ipver) steps) @ [''received command for x .x'']"
  using assms
proof (cases rule: main_Inr)
  case (1 s0)
  from mainloop_steps[OF 1(4)] obtain steps where s: "length steps = nat numops"
    "\<forall>st\<in>set steps. fst st = '''' \<or> (fst st = ''+'' \<or> fst st = ''-'') \<and> fst (snd st) \<noteq> []"
    "stdout s0 = concat (map (\<lambda>(deltype, delta, srcs). [SetE deltype delta, QueryE]) steps)"
    "stderr s0 = concat (map (\<lambda>(deltype, delta, srcs).
              [Received (SetE deltype delta), Received QueryE, Note srcs]) steps)"
    by (auto simp: steps_inv_def)
  have "int (length steps) = numops" using s(1) 1(3) by simp
  moreover have "map (cmdout inet_ntop ipver) (stdout s)
         = concat (map (step_primary inet_ntop ipver) steps) @ [''.x'']"
    unfolding 1(5) using s(3) steps_primary_text[of inet_ntop ipver steps] by simp
  moreover have "map (oracleout inet_ntop ipver) (stderr s)
         = concat (map (step_oracle inet_ntop ipver) steps) @ [''received command for x .x'']"
    unfolding 1(5) using s(4) steps_oracle_text[of inet_ntop ipver steps] by simp
  ultimately show ?thesis using s(2) by blast
qed

lemma addrout_example: "addrout dotted 4 167772160 = ''10.0.0.0''"
  by (simp add: addrout_def dotted_def numeral_3_eq_3 drop_bit_eq_div)

theorem C8_witness:
  "main tape2 0 4 3 1 1 = Some (Inr (finish s2_step))
   \<and> (\<exists>steps. int (length steps) = 1
        \<and> map (cmdout dotted 4) (stdout (finish s2_step))
            = concat (map (step_primary dotted 4) steps) @ [''.x'']
        \<and> map (oracleout dotted 4) (stderr (finish s2_step))
            = concat (map (step_oracle dotted 4) steps) @ [''received command for x .x''])
   \<and> map (cmdout dotted 4) (stdout (finish s2_step))
       = [''-E10.0.0.0,10.0.0.0'', ''?E'', ''.x'']
   \<and> map (oracleout dotted 4) (stderr (finish s2_step))
       = [''received command for x -E10.0.0.0,10.0.0.0'', ''received command for x ?E'',
          ''note: x source setting: -E10.0.0.0,10.0.0.0'', ''received command for x .x'']"
proof -
  from C8_output_shape[OF main2, of dotted]
  have "\<exists>steps. int (length steps) = 1
        \<and> map (cmdout dotted 4) (stdout (finish s2_step))
            = concat (map (step_primary dotted 4) steps) @ [''.x'']
        \<and> map (oracleout dotted 4) (stderr (finish s2_step))
            = concat (map (step_oracle dotted 4) steps) @ [''received command for x .x'']"
    by blast
  moreover have "map (cmdout dotted 4) (stdout (finish s2_step))
       = [''-E10.0.0.0,10.0.0.0'', ''?E'', ''.x'']"
    by (simp add: s2_step_def addrsout_def addrout_example)
  moreover have "map (oracleout dotted 4) (stderr (finish s2_step))
       = [''received command for x -E10.0.0.0,10.0.0.0'', ''received command for x ?E'',
          ''note: x source setting: -E10.0.0.0,10.0.0.0'', ''received command for x .x'']"
    by (simp add: s2_step_def addrsout_def addrout_example)
  ultimately show ?thesis using main2 by blast
qed


subsection \<open>The result does not depend on the bound on the passes\<close>

lemma mainloop_fuel_mono:
  "mainloop f ipver addrmax numops s = Some r \<Longrightarrow> f \<le> f'
     \<Longrightarrow> mainloop f' ipver addrmax numops s = Some r"
proof (induction f arbitrary: f' s)
  case 0
  then have "\<not> o_var s < numops" "r = Inr s"
    by (subst (asm) mainloop.simps; auto split: if_splits)+
  then show ?case by (subst mainloop.simps) simp
next
  case (Suc f)
  from Suc.prems(2) obtain f'' where f': "f' = Suc f''" and le: "f \<le> f''"
    by (cases f') auto
  show ?case
  proof (cases "o_var s < numops")
    case False
    with Suc.prems(1) have "r = Inr s" by (subst (asm) mainloop.simps) simp
    with False show ?thesis by (subst mainloop.simps) simp
  next
    case True
    show ?thesis
    proof (cases "attempt ipver addrmax s")
      case (Inl e)
      with True Suc.prems(1) have "r = Inl e" by (subst (asm) mainloop.simps) simp
      with True Inl show ?thesis unfolding f' by (subst mainloop.simps) simp
    next
      case (Inr s1)
      with True Suc.prems(1) have "mainloop f ipver addrmax numops s1 = Some r"
        by (subst (asm) mainloop.simps) simp
      from Suc.IH[OF this le] True Inr show ?thesis
        unfolding f' by (subst mainloop.simps) simp
    qed
  qed
qed

lemma main_fuel_mono:
  assumes "main mt seed ipver addrmax numops f = Some r" "f \<le> f'"
  shows "main mt seed ipver addrmax numops f' = Some r"
proof (cases "(ipver \<noteq> 4 \<and> ipver \<noteq> 6) \<or> addrmax < 1 \<or> numops < 1")
  case True
  with assms(1) show ?thesis by (auto simp: main_def split: if_splits)
next
  case False
  with assms(1) obtain r0 where
    m: "mainloop f ipver (nat addrmax) (nat numops) (init (mt seed)) = Some r0"
    by (auto simp: main_def split: if_splits option.splits)
  from mainloop_fuel_mono[OF m assms(2)] m assms(1) False show ?thesis
    by (auto simp: main_def split: if_splits sum.splits)
qed

text \<open>
  C4: the library's generator is a function \<open>mt\<close> of the seed, and the script reads
  nothing else. Two runs on the same seed, version, addrmax and numops that both end,
  whatever bounds on the number of passes they were given, return the same result:
  the same final state, so the same text on the primary and on the oracle stream.
\<close>

theorem C4_deterministic:
  assumes "main mt seed ipver addrmax numops fuel1 = Some r1"
    and "main mt seed ipver addrmax numops fuel2 = Some r2"
  shows "r1 = r2 \<and>
     map_sum id (\<lambda>s. (map (cmdout inet_ntop ipver) (stdout s),
                       map (oracleout inet_ntop ipver) (stderr s))) r1
     = map_sum id (\<lambda>s. (map (cmdout inet_ntop ipver) (stdout s),
                         map (oracleout inet_ntop ipver) (stderr s))) r2"
proof -
  have "r1 = r2"
  proof (cases "fuel1 \<le> fuel2")
    case True
    from main_fuel_mono[OF assms(1) True] assms(2) show ?thesis by simp
  next
    case False
    then have "fuel2 \<le> fuel1" by simp
    from main_fuel_mono[OF assms(2) this] assms(1) show ?thesis by simp
  qed
  then show ?thesis by simp
qed

lemma main2_more: "main tape2 0 4 3 1 7 = Some (Inr (finish s2_step))"
  by (rule main_fuel_mono[OF main2]) simp

theorem C4_witness:
  "main tape2 0 4 3 1 1 = Some (Inr (finish s2_step))
   \<and> main tape2 0 4 3 1 7 = Some (Inr (finish s2_step))
   \<and> map (cmdout dotted 4) (stdout (finish s2_step)) = [''-E10.0.0.0,10.0.0.0'', ''?E'', ''.x'']"
proof -
  have "map (cmdout dotted 4) (stdout (finish s2_step))
       = [''-E10.0.0.0,10.0.0.0'', ''?E'', ''.x'']"
    by (simp add: s2_step_def addrsout_def addrout_example)
  with C4_deterministic[OF main2 main2_more, of dotted] main2 main2_more
  show ?thesis by simp
qed

subsection \<open>The density passed to the synthesizer\<close>

lemma mkbits_loop_all:
  assumes "\<And>i. of_nat (tape g i mod 2 ^ 53) / 2 ^ 53 < d" "k \<le> l"
  shows "mkbits_loop [k..<l] d b g = (b + (2 ^ l - 2 ^ k), g\<lparr>pos := pos g + (l - k)\<rparr>)"
  using assms
proof (induction "l - k" arbitrary: k b g)
  case 0
  then show ?case by simp
next
  case (Suc n)
  then have kl: "k < l" by simp
  let ?g1 = "g\<lparr>pos := Suc (pos g)\<rparr>"
  have u: "rnd_uniform 0 1 g = (of_nat (tape g (pos g) mod 2 ^ 53) / 2 ^ 53, ?g1)"
    by (simp add: rnd_uniform_def rnd_random_def)
  have lt: "of_nat (tape g (pos g) mod 2 ^ 53) / 2 ^ 53 < d" by (rule Suc.prems(1))
  have n: "n = l - Suc k" using Suc.hyps by simp
  have t: "\<And>i. of_nat (tape ?g1 i mod 2 ^ 53) / 2 ^ 53 < d" using Suc.prems(1) by simp
  have "mkbits_loop [Suc k..<l] d (b + push_bit k 1) ?g1
      = (b + push_bit k 1 + (2 ^ l - 2 ^ Suc k), ?g1\<lparr>pos := pos ?g1 + (l - Suc k)\<rparr>)"
    using kl by (intro Suc.hyps(1)[OF n t]) simp
  moreover have "b + push_bit k 1 + (2 ^ l - 2 ^ Suc k) = b + ((2::int) ^ l - 2 ^ k)"
    by (simp add: push_bit_eq_mult)
  moreover have "pos ?g1 + (l - Suc k) = pos g + (l - k)" using kl by simp
  ultimately show ?case using kl u lt by (simp add: upt_conv_Cons)
qed

lemma density_arg_range:
  "0 \<le> fst (density_arg ipver g) \<and> fst (density_arg ipver g) < modden ipver"
proof -
  let ?r = "of_nat (tape g (pos g) mod 2 ^ 53) / 2 ^ 53 :: rat"
  have d: "fst (density_arg ipver g) = modden ipver * ?r"
    by (simp add: density_arg_def rnd_uniform_def rnd_random_def)
  have m: "0 < modden ipver" by (simp add: modden_def)
  have "tape g (pos g) mod 2 ^ 53 < 2 ^ 53" by simp
  then have "(of_nat (tape g (pos g) mod 2 ^ 53) :: rat) < of_nat (2 ^ 53)"
    by (simp only: of_nat_less_iff)
  then have r1: "?r < 1" by simp
  have r0: "0 \<le> ?r" by simp
  from m r0 have "0 \<le> modden ipver * ?r" by simp
  moreover from m r1 have "modden ipver * ?r < modden ipver * 1"
    by (intro mult_strict_left_mono)
  ultimately show ?thesis unfolding d by simp
qed

lemma density_arg_value:
  "fst (density_arg ipver g) = modden ipver * (of_nat (tape g (pos g) mod 2 ^ 53) / 2 ^ 53)"
  by (simp add: density_arg_def rnd_uniform_def rnd_random_def)

lemma abs_cand_cases:
  "abs_cand ipver delta a g =
     (if delta = [] then Inr (synth ipver a g)
      else if fst (rnd_uniform 0 1 g) < 4 / 10
           then rnd_choice delta (snd (rnd_uniform 0 1 g))
           else Inr (synth ipver a (snd (rnd_uniform 0 1 g))))"
  by (simp add: abs_cand_def split: prod.splits)

lemma add_cand_cases:
  "add_cand ipver srcs a g =
     (if srcs = [] then Inr (synth ipver a g)
      else if fst (rnd_uniform 0 1 g) < 4 / 10
           then rnd_choice srcs (snd (rnd_uniform 0 1 g))
           else Inr (synth ipver a (snd (rnd_uniform 0 1 g))))"
  by (simp add: add_cand_def split: prod.splits)

text \<open>
  C9, as stated, fails: the density passed to \<open>mkaddr\<close> is not the fixed value
  \<open>modden\<close> but a fresh draw \<open>rnd.uniform(0, modden)\<close>. On the tape whose draws are all
  2 the density passed is not 0.2, and the address synthesized, 10.0.0.0, is not the
  one that density 0.2 gives on the same draws, 10.255.255.255.
\<close>

theorem C9_counterexample:
  "fst (density_arg 4 (gen2 0)) \<noteq> modden 4
   \<and> fst (synth 4 None (gen2 0)) = 0x0a000000
   \<and> fst (mkaddr 4 None (modden 4) (snd (density_arg 4 (gen2 0)))) = 0x0affffff"
proof -
  have 1: "fst (density_arg 4 (gen2 0)) \<noteq> modden 4"
    by (simp add: density_arg_def rnd_uniform_def rnd_random_def gen2_def tape2_def modden_def)
  have 2: "fst (synth 4 None (gen2 0)) = 0x0a000000"
    by (simp add: synth_const gen2_def tape2_const)
  have g: "snd (density_arg 4 (gen2 0)) = gen2 1"
    by (simp add: density_arg_def rnd_uniform_def rnd_random_def gen2_def)
  have "mkbits 24 (modden 4) (gen2 1) = (0 + (2 ^ 24 - 2 ^ 0), (gen2 1)\<lparr>pos := pos (gen2 1) + (24 - 0)\<rparr>)"
    unfolding mkbits_def
    by (rule mkbits_loop_all) (simp_all add: gen2_def tape2_def modden_def)
  then have 3: "fst (mkaddr 4 None (modden 4) (snd (density_arg 4 (gen2 0)))) = 0x0affffff"
    unfolding g by (simp add: mkaddr_def)
  from 1 2 3 show ?thesis by simp
qed

text \<open>
  C9, amended: every invocation of the address synthesizer is passed a density drawn
  at that invocation by \<open>rnd.uniform(0, modden)\<close>, where \<open>modden\<close> is fixed by the IP
  version: 0.2 for version 4, 0.05 for version 6. The density passed is \<open>modden\<close> times
  the value of \<open>random()\<close> at that call, so it is at least 0 and below \<open>modden\<close>. The
  invocations are those of lines 131, 145 and 170: each branch synthesizes when its
  list is empty or its draw is not below the threshold, and takes a member of the list,
  without synthesis, otherwise.
\<close>

theorem C9_density_drawn_below_modden:
  "synth ipver a g = mkaddr ipver a (fst (density_arg ipver g)) (snd (density_arg ipver g))
   \<and> density_arg ipver g = rnd_uniform 0 (modden ipver) g
   \<and> fst (density_arg ipver g) = modden ipver * (of_nat (tape g (pos g) mod 2 ^ 53) / 2 ^ 53)
   \<and> 0 \<le> fst (density_arg ipver g) \<and> fst (density_arg ipver g) < modden ipver
   \<and> modden 4 = 2 / 10 \<and> modden 6 = 5 / 100
   \<and> abs_cand ipver xs a g =
       (if xs = [] then Inr (synth ipver a g)
        else if fst (rnd_uniform 0 1 g) < 4 / 10
             then rnd_choice xs (snd (rnd_uniform 0 1 g))
             else Inr (synth ipver a (snd (rnd_uniform 0 1 g))))
   \<and> sub_cand ipver xs a g =
       (if xs = [] then Inr (synth ipver a g)
        else if fst (rnd_uniform 0 1 g) < 5404319552844595 / 2 ^ 53
             then rnd_choice xs (snd (rnd_uniform 0 1 g))
             else Inr (synth ipver a (snd (rnd_uniform 0 1 g))))
   \<and> add_cand ipver xs a g =
       (if xs = [] then Inr (synth ipver a g)
        else if fst (rnd_uniform 0 1 g) < 4 / 10
             then rnd_choice xs (snd (rnd_uniform 0 1 g))
             else Inr (synth ipver a (snd (rnd_uniform 0 1 g))))"
proof -
  have 1: "synth ipver a g
      = mkaddr ipver a (fst (density_arg ipver g)) (snd (density_arg ipver g))"
    by (simp add: synth_def split: prod.splits)
  have 2: "density_arg ipver g = rnd_uniform 0 (modden ipver) g"
    by (simp add: density_arg_def)
  have 3: "modden 4 = 2 / 10" "modden 6 = 5 / 100"
    by (simp_all add: modden_def)
  from 1 2 density_arg_value[of ipver g] density_arg_range[of ipver g] 3
    abs_cand_cases[of ipver xs a g] sub_cand_cases[of ipver xs a g]
    add_cand_cases[of ipver xs a g]
  show ?thesis by (intro conjI) simp_all
qed

theorem C9_witness:
  "fst (density_arg 4 (gen2 0)) = 2 / 10 * (2 / 2 ^ 53)
   \<and> fst (density_arg 6 (gen_hi 0)) = 5 / 100 * ((2 ^ 53 - 1) / 2 ^ 53)
   \<and> fst (density_arg 6 (gen_hi 0)) < 5 / 100
   \<and> abs_cand 4 [] None (gen2 0)
       = Inr (mkaddr 4 None (fst (density_arg 4 (gen2 0))) (gen2 1))
   \<and> abs_cand 4 [167772165] None (gen2 0) = Inr (167772165, gen2 2)
   \<and> abs_cand 6 [167772165] None (gen_hi 0)
       = Inr (mkaddr 6 None (fst (density_arg 6 (gen_hi 1))) (gen_hi 2))
   \<and> sub_cand 6 [167772165] None (gen_hi 0)
       = Inr (mkaddr 6 None (fst (density_arg 6 (gen_hi 1))) (gen_hi 2))
   \<and> add_cand 6 [167772165] None (gen_hi 0)
       = Inr (mkaddr 6 None (fst (density_arg 6 (gen_hi 1))) (gen_hi 2))"
proof -
  have u2: "rnd_uniform 0 1 (gen2 0) = (2 / 2 ^ 53, gen2 1)"
    by (simp add: rnd_uniform_def rnd_random_def gen2_def tape2_def)
  have uh: "rnd_uniform 0 1 (gen_hi 0) = ((2 ^ 53 - 1) / 2 ^ 53, gen_hi 1)"
    by (simp add: rnd_uniform_def rnd_random_def gen_hi_def tape_hi_def)
  have c2: "rnd_choice [167772165 :: int] (gen2 1) = Inr (167772165, gen2 2)"
    by (simp add: rnd_choice_def gen2_def)
  have s2: "snd (density_arg 4 (gen2 0)) = gen2 1"
    by (simp add: density_arg_def rnd_uniform_def rnd_random_def gen2_def)
  have sh: "snd (density_arg 6 (gen_hi 1)) = gen_hi 2"
    by (simp add: density_arg_def rnd_uniform_def rnd_random_def gen_hi_def)
  note A = C9_density_drawn_below_modden[of 4 None "gen2 0" "[]"]
  note B = C9_density_drawn_below_modden[of 4 None "gen2 0" "[167772165]"]
  note C = C9_density_drawn_below_modden[of 6 None "gen_hi 0" "[167772165]"]
  note D = C9_density_drawn_below_modden[of 6 None "gen_hi 1" "[167772165]"]
  from A have a3: "fst (density_arg 4 (gen2 0))
      = modden 4 * (of_nat (tape (gen2 0) (pos (gen2 0)) mod 2 ^ 53) / 2 ^ 53)"
    and a6: "modden 4 = 2 / 10"
    and a1: "synth 4 None (gen2 0)
      = mkaddr 4 None (fst (density_arg 4 (gen2 0))) (snd (density_arg 4 (gen2 0)))"
    and a8: "abs_cand 4 [] None (gen2 0) =
       (if [] = ([] :: int list) then Inr (synth 4 None (gen2 0))
        else if fst (rnd_uniform 0 1 (gen2 0)) < 4 / 10
             then rnd_choice [] (snd (rnd_uniform 0 1 (gen2 0)))
             else Inr (synth 4 None (snd (rnd_uniform 0 1 (gen2 0)))))"
    by blast+
  from B have b8: "abs_cand 4 [167772165] None (gen2 0) =
       (if [167772165] = ([] :: int list) then Inr (synth 4 None (gen2 0))
        else if fst (rnd_uniform 0 1 (gen2 0)) < 4 / 10
             then rnd_choice [167772165] (snd (rnd_uniform 0 1 (gen2 0)))
             else Inr (synth 4 None (snd (rnd_uniform 0 1 (gen2 0)))))"
    by blast
  from C have c3: "fst (density_arg 6 (gen_hi 0))
      = modden 6 * (of_nat (tape (gen_hi 0) (pos (gen_hi 0)) mod 2 ^ 53) / 2 ^ 53)"
    and c5: "fst (density_arg 6 (gen_hi 0)) < modden 6"
    and c7: "modden 6 = 5 / 100"
    and c8: "abs_cand 6 [167772165] None (gen_hi 0) =
       (if [167772165] = ([] :: int list) then Inr (synth 6 None (gen_hi 0))
        else if fst (rnd_uniform 0 1 (gen_hi 0)) < 4 / 10
             then rnd_choice [167772165] (snd (rnd_uniform 0 1 (gen_hi 0)))
             else Inr (synth 6 None (snd (rnd_uniform 0 1 (gen_hi 0)))))"
    and c9: "sub_cand 6 [167772165] None (gen_hi 0) =
       (if [167772165] = ([] :: int list) then Inr (synth 6 None (gen_hi 0))
        else if fst (rnd_uniform 0 1 (gen_hi 0)) < 5404319552844595 / 2 ^ 53
             then rnd_choice [167772165] (snd (rnd_uniform 0 1 (gen_hi 0)))
             else Inr (synth 6 None (snd (rnd_uniform 0 1 (gen_hi 0)))))"
    and c10: "add_cand 6 [167772165] None (gen_hi 0) =
       (if [167772165] = ([] :: int list) then Inr (synth 6 None (gen_hi 0))
        else if fst (rnd_uniform 0 1 (gen_hi 0)) < 4 / 10
             then rnd_choice [167772165] (snd (rnd_uniform 0 1 (gen_hi 0)))
             else Inr (synth 6 None (snd (rnd_uniform 0 1 (gen_hi 0)))))"
    by blast+
  from D have d1: "synth 6 None (gen_hi 1)
      = mkaddr 6 None (fst (density_arg 6 (gen_hi 1))) (snd (density_arg 6 (gen_hi 1)))"
    by blast
  have 1: "fst (density_arg 4 (gen2 0)) = 2 / 10 * (2 / 2 ^ 53)"
    unfolding a3 a6 by (simp add: gen2_def tape2_def)
  have 2: "fst (density_arg 6 (gen_hi 0)) = 5 / 100 * ((2 ^ 53 - 1) / 2 ^ 53)"
    unfolding c3 c7 by (simp add: gen_hi_def tape_hi_def)
  have 3: "fst (density_arg 6 (gen_hi 0)) < 5 / 100"
    using c5 unfolding c7 .
  have 4: "abs_cand 4 [] None (gen2 0)
       = Inr (mkaddr 4 None (fst (density_arg 4 (gen2 0))) (gen2 1))"
    unfolding a8 a1 s2 by simp
  have 5: "abs_cand 4 [167772165] None (gen2 0) = Inr (167772165, gen2 2)"
    unfolding b8 u2 using c2 by simp
  have 6: "abs_cand 6 [167772165] None (gen_hi 0)
       = Inr (mkaddr 6 None (fst (density_arg 6 (gen_hi 1))) (gen_hi 2))"
    unfolding c8 uh using d1[unfolded sh] by simp
  have 7: "sub_cand 6 [167772165] None (gen_hi 0)
       = Inr (mkaddr 6 None (fst (density_arg 6 (gen_hi 1))) (gen_hi 2))"
    unfolding c9 uh using d1[unfolded sh] by simp
  have 8: "add_cand 6 [167772165] None (gen_hi 0)
       = Inr (mkaddr 6 None (fst (density_arg 6 (gen_hi 1))) (gen_hi 2))"
    unfolding c10 uh using d1[unfolded sh] by simp
  from 1 2 3 4 5 6 7 8 show ?thesis by (intro conjI)
qed


subsection \<open>Duplicates after an absolute set\<close>

text \<open>
  C3: on the tape whose draws are all 2, with version 4, addrmax 3 and one step, the
  absolute loop synthesizes 10.0.0.0 and then selects it again from the delta. The
  script sets the source list to the sorted delta, which keeps the duplicate: the
  list is not the deduplicated sorted delta, and it has a duplicate member.
\<close>

theorem C3_absolute_keeps_duplicates:
  "main tape2 0 4 3 1 1 = Some (Inr (finish s2_step))
   \<and> primary_deltas (stdout (finish s2_step)) = [('''', [167772160, 167772160])]
   \<and> sources (finish s2_step) = [167772160, 167772160]
   \<and> sort (remdups [167772160 :: int, 167772160]) = [167772160]
   \<and> \<not> distinct (sources (finish s2_step))"
  using main2 by (simp add: s2_step_def)

text \<open>
  C1: on the same run the primary stream holds the one command
  \<open>-E10.0.0.0,10.0.0.0\<close>. Replayed with the documented meaning from the empty source
  set it gives the one member 10.0.0.0, while the source setting on the oracle stream
  lists 10.0.0.0 twice.
\<close>

theorem C1_replay_differs_from_oracle:
  "main tape2 0 4 3 1 1 = Some (Inr (finish s2_step))
   \<and> replay [] (primary_deltas (stdout (finish s2_step))) = [[167772160]]
   \<and> oracle_notes (stderr (finish s2_step)) = [[167772160, 167772160]]
   \<and> map (oracleout dotted 4) (stderr (finish s2_step)) ! 2
       = ''note: x source setting: -E10.0.0.0,10.0.0.0''"
  using main2 by (simp add: s2_step_def apply_delta_def addrsout_def addrout_example)


subsection \<open>Replaying the primary stream\<close>

text \<open>
  What does hold between the two streams: the replay gives, step by step, the source
  setting of the oracle with its duplicates removed. The two agree at every step
  whose source setting has no duplicate.
\<close>

lemma replay_end_snoc:
  "replay_end srcs (ds @ [(deltype, delta)]) = apply_delta deltype (replay_end srcs ds) delta"
  by (induction srcs ds rule: replay_end.induct) simp_all

lemma replay_snoc:
  "replay srcs (ds @ [(deltype, delta)])
     = replay srcs ds @ [apply_delta deltype (replay_end srcs ds) delta]"
  by (induction srcs ds rule: replay.induct) simp_all

lemma sorted_distinct_eq:
  fixes xs ys :: "int list"
  shows "sorted xs \<Longrightarrow> distinct xs \<Longrightarrow> sorted ys \<Longrightarrow> distinct ys \<Longrightarrow> set xs = set ys
    \<Longrightarrow> xs = ys"
  by (rule sorted_distinct_set_unique)

lemma apply_delta_outcome:
  fixes srcs srcs' delta :: "addr list"
  assumes "sorted srcs"
    and "(deltype = '''' \<and> srcs' = sort delta)
       \<or> (deltype = ''-'' \<and> srcs' = filter (\<lambda>x. x \<notin> set delta) srcs)
       \<or> (deltype = ''+'' \<and> srcs' = sorted_list_of_set (set srcs \<union> set delta))"
  shows "sorted srcs' \<and> apply_delta deltype (remdups srcs) delta = remdups srcs'"
  using assms(2)
proof (elim disjE conjE)
  assume a: "deltype = ''''" "srcs' = sort delta"
  have "sort (remdups delta) = remdups (sort delta)"
    by (rule sorted_distinct_eq) (simp_all add: sorted_remdups)
  with a show ?thesis by (simp add: apply_delta_def)
next
  assume a: "deltype = ''-''" "srcs' = filter (\<lambda>x. x \<notin> set delta) srcs"
  have "sorted (filter (\<lambda>x. x \<notin> set delta) srcs)"
    using assms(1) by (rule sorted_wrt_filter)
  with a show ?thesis by (simp add: apply_delta_def remdups_filter)
next
  assume a: "deltype = ''+''" "srcs' = sorted_list_of_set (set srcs \<union> set delta)"
  have "sort (remdups (remdups srcs @ delta)) = remdups (sorted_list_of_set (set srcs \<union> set delta))"
    by (rule sorted_distinct_eq) (simp_all add: sorted_remdups)
  with a show ?thesis by (simp add: apply_delta_def)
qed

lemma replay_inv_attempt:
  assumes "replay_inv s" "attempt ipver addrmax s = Inr s'"
  shows "replay_inv s'"
  using assms(2)
proof (cases rule: attempt_outcome)
  case reject
  with assms(1) show ?thesis by (simp add: replay_inv_def)
next
  case (accept deltype delta)
  from assms(1) have s: "sorted (sources s)"
    and e: "replay_end [] (primary_deltas (stdout s)) = remdups (sources s)"
    and r: "replay [] (primary_deltas (stdout s)) = map remdups (oracle_notes (stderr s))"
    by (simp_all add: replay_inv_def)
  from accept(4) have "(deltype = '''' \<and> sources s' = sort delta)
       \<or> (deltype = ''-'' \<and> sources s' = filter (\<lambda>x. x \<notin> set delta) (sources s))
       \<or> (deltype = ''+'' \<and> sources s' = sorted_list_of_set (set (sources s) \<union> set delta))"
    by auto
  from apply_delta_outcome[OF s this]
  have s': "sorted (sources s')"
    and a: "apply_delta deltype (remdups (sources s)) delta = remdups (sources s')"
    by simp_all
  have p: "primary_deltas (stdout s') = primary_deltas (stdout s) @ [(deltype, delta)]"
    unfolding accept(2) by (simp add: primary_deltas_append)
  have n: "oracle_notes (stderr s') = oracle_notes (stderr s) @ [sources s']"
    unfolding accept(3) by (simp add: oracle_notes_append)
  show ?thesis
    unfolding replay_inv_def p n using s' a e r by (simp add: replay_end_snoc replay_snoc)
qed

lemma replay_gives_deduplicated_oracle:
  assumes "main mt seed ipver addrmax numops fuel = Some (Inr s)"
  shows "replay [] (primary_deltas (stdout s)) = map remdups (oracle_notes (stderr s))"
  using assms
proof (cases rule: main_Inr)
  case (1 s0)
  have "replay_inv s0"
    by (rule mainloop_invariant[OF 1(4), where I = replay_inv])
       (simp add: replay_inv_def, use replay_inv_attempt in blast)
  then show ?thesis
    unfolding 1(5) by (simp add: replay_inv_def primary_deltas_append oracle_notes_append)
qed


text \<open>A duplicate in the source list can only come from an absolute set.\<close>

lemma duplicates_only_from_absolute:
  assumes "attempt ipver addrmax s = Inr s'" "distinct (sources s)" "\<not> distinct (sources s')"
  shows "\<exists>delta. stdout s' = stdout s @ [SetE '''' delta, QueryE]
           \<and> sources s' = sort delta \<and> \<not> distinct delta"
  using assms(1)
proof (cases rule: attempt_outcome)
  case reject
  with assms(2,3) show ?thesis by simp
next
  case (accept deltype delta)
  from accept(4) assms(2,3) have "deltype = '''' \<and> sources s' = sort delta"
    by auto
  with accept(2) assms(3) show ?thesis by auto
qed

end
